theory Spec2Isabelle
  imports Complex_Main
begin

section \<open>JavaScript numbers\<close>

text \<open>
  A JavaScript number is an IEEE 754 double: a finite value, \<open>Infinity\<close>, \<open>-Infinity\<close> or
  \<open>NaN\<close>. The finite result of \<open>+\<close>, \<open>-\<close>, \<open>*\<close>, \<open>/\<close> and \<open>Math.sqrt\<close> is the exact
  result rounded to a double, and a rounded result beyond \<open>Number.MAX_VALUE\<close> is an
  infinity. The rounding function \<open>rnd\<close> is a parameter of every definition that
  computes: what is proved for every \<open>rnd\<close> holds for the rounding of the machine. The
  two zeros of IEEE 754 are not told apart (the source never divides by zero and never
  looks at the sign of a zero).
\<close>

datatype jsnum = Num real | PInf | NInf | NaN

definition MAX_VALUE :: real where
  "MAX_VALUE = 2 ^ 1024 - 2 ^ 971"

definition fin :: "(real \<Rightarrow> real) \<Rightarrow> real \<Rightarrow> jsnum" where
  "fin rnd r =
     (if rnd r > MAX_VALUE then PInf else if rnd r < - MAX_VALUE then NInf else Num (rnd r))"

fun jneg :: "jsnum \<Rightarrow> jsnum" where
  "jneg (Num a) = Num (- a)"
| "jneg PInf = NInf"
| "jneg NInf = PInf"
| "jneg NaN = NaN"

fun jadd :: "(real \<Rightarrow> real) \<Rightarrow> jsnum \<Rightarrow> jsnum \<Rightarrow> jsnum" where
  "jadd rnd (Num a) (Num b) = fin rnd (a + b)"
| "jadd rnd NaN y = NaN"
| "jadd rnd x NaN = NaN"
| "jadd rnd PInf NInf = NaN"
| "jadd rnd NInf PInf = NaN"
| "jadd rnd PInf y = PInf"
| "jadd rnd x PInf = PInf"
| "jadd rnd NInf y = NInf"
| "jadd rnd x NInf = NInf"

definition jsub :: "(real \<Rightarrow> real) \<Rightarrow> jsnum \<Rightarrow> jsnum \<Rightarrow> jsnum" where
  "jsub rnd x y = jadd rnd x (jneg y)"

fun jmul :: "(real \<Rightarrow> real) \<Rightarrow> jsnum \<Rightarrow> jsnum \<Rightarrow> jsnum" where
  "jmul rnd (Num a) (Num b) = fin rnd (a * b)"
| "jmul rnd NaN y = NaN"
| "jmul rnd x NaN = NaN"
| "jmul rnd (Num a) y = (if a = 0 then NaN else if (0 < a) = (y = PInf) then PInf else NInf)"
| "jmul rnd x (Num b) = (if b = 0 then NaN else if (0 < b) = (x = PInf) then PInf else NInf)"
| "jmul rnd x y = (if x = y then PInf else NInf)"

fun jdiv :: "(real \<Rightarrow> real) \<Rightarrow> jsnum \<Rightarrow> jsnum \<Rightarrow> jsnum" where
  "jdiv rnd (Num a) (Num b) =
     (if b = 0 then (if a = 0 then NaN else if 0 < a then PInf else NInf)
      else fin rnd (a / b))"
| "jdiv rnd NaN y = NaN"
| "jdiv rnd x NaN = NaN"
| "jdiv rnd (Num a) y = Num 0"
| "jdiv rnd x (Num b) = (if (0 \<le> b) = (x = PInf) then PInf else NInf)"
| "jdiv rnd x y = NaN"

fun jsqrt :: "(real \<Rightarrow> real) \<Rightarrow> jsnum \<Rightarrow> jsnum" where
  "jsqrt rnd (Num a) = (if a < 0 then NaN else Num (rnd (sqrt a)))"
| "jsqrt rnd PInf = PInf"
| "jsqrt rnd NInf = NaN"
| "jsqrt rnd NaN = NaN"

fun jabs :: "jsnum \<Rightarrow> jsnum" where
  "jabs (Num a) = Num \<bar>a\<bar>"
| "jabs PInf = PInf"
| "jabs NInf = PInf"
| "jabs NaN = NaN"

text \<open>\<open>x < y\<close>: every comparison with \<open>NaN\<close> is false, and so is \<open>Infinity < Infinity\<close>.\<close>

fun jlt :: "jsnum \<Rightarrow> jsnum \<Rightarrow> bool" where
  "jlt (Num a) (Num b) = (a < b)"
| "jlt NaN y = False"
| "jlt x NaN = False"
| "jlt x NInf = False"
| "jlt PInf y = False"
| "jlt NInf y = True"
| "jlt x PInf = True"

text \<open>\<open>x <= y\<close>.\<close>

fun jle :: "jsnum \<Rightarrow> jsnum \<Rightarrow> bool" where
  "jle (Num a) (Num b) = (a \<le> b)"
| "jle NaN y = False"
| "jle x NaN = False"
| "jle NInf y = True"
| "jle x PInf = True"
| "jle x NInf = False"
| "jle PInf y = False"

text \<open>
  What is used of the rounding where a claim depends on it: it is monotone, it leaves
  its own results and the numbers 0 and 1 unchanged. Rounding to the nearest double has
  these properties, and so has exact arithmetic, \<open>exact\<close>.
\<close>

definition rounding :: "(real \<Rightarrow> real) \<Rightarrow> bool" where
  "rounding rnd =
     ((\<forall>x y. x \<le> y \<longrightarrow> rnd x \<le> rnd y) \<and> (\<forall>x. rnd (rnd x) = rnd x) \<and> rnd 0 = 0 \<and> rnd 1 = 1)"

definition exact :: "real \<Rightarrow> real" where
  "exact x = x"

section \<open>Points, faces and errors\<close>

text \<open>
  \<open>THREE.Vector2\<close> and \<open>THREE.Vector3\<close> are coordinate tuples. The third coordinate of a
  face vertex is a plane height, which is only copied, never computed with; heights are
  finite numbers.
\<close>

datatype Vector2 = Vector2 (vx: jsnum) (vy: jsnum)

datatype Vector3 = Vector3 (px: jsnum) (py: jsnum) (pz: real)

record LoftFace =
  face_vertices :: "Vector3 list"

record LoftResult =
  faces :: "LoftFace list"

text \<open>
  The two ways the source can throw: reading a property of \<open>undefined\<close> (a vertex of an
  empty loop), and the explicit \<open>Error('No loft algorithms registered')\<close>.
\<close>

datatype error = TypeError | NoLoftAlgorithmsRegistered

text \<open>
  \<open>THREE.Vector2.distanceTo\<close>: \<open>Math.sqrt(dx * dx + dy * dy)\<close> with \<open>dx = this.x - v.x\<close>
  and \<open>dy = this.y - v.y\<close>.
\<close>

definition distanceTo :: "(real \<Rightarrow> real) \<Rightarrow> Vector2 \<Rightarrow> Vector2 \<Rightarrow> jsnum" where
  "distanceTo rnd p q =
     (let dx = jsub rnd (vx p) (vx q);
          dy = jsub rnd (vy p) (vy q)
      in jsqrt rnd (jadd rnd (jmul rnd dx dx) (jmul rnd dy dy)))"

section \<open>Winding normalizer\<close>

text \<open>
  Modelled from the spec: \<open>ensureWindingCCW\<close> lives in \<open>util/Geometry\<close>, which is not
  among the source files. The spec (4.1): the signed area is the shoelace sum; a
  negative area (clockwise) returns the vertex sequence reversed, anything else returns
  it unchanged; loops with fewer than 3 points pass through unchanged.
\<close>

definition shoelaceTerm :: "(real \<Rightarrow> real) \<Rightarrow> Vector2 \<times> Vector2 \<Rightarrow> jsnum" where
  "shoelaceTerm rnd pq =
     jsub rnd (jmul rnd (vx (fst pq)) (vy (snd pq))) (jmul rnd (vx (snd pq)) (vy (fst pq)))"

definition signedArea :: "(real \<Rightarrow> real) \<Rightarrow> Vector2 list \<Rightarrow> jsnum" where
  "signedArea rnd ps =
     jdiv rnd (foldl (\<lambda>area pq. jadd rnd area (shoelaceTerm rnd pq)) (Num 0) (zip ps (rotate1 ps)))
              (Num 2)"

definition ensureWindingCCW :: "(real \<Rightarrow> real) \<Rightarrow> Vector2 list \<Rightarrow> Vector2 list" where
  "ensureWindingCCW rnd ps =
     (if length ps < 3 then ps else if jlt (signedArea rnd ps) (Num 0) then rev ps else ps)"

section \<open>ParameterizedLoop\<close>

record ParameterizedLoop =
  vertices :: "Vector2 list"
  params :: "jsnum list"
  totalLength :: jsnum

text \<open>
  One iteration of the constructor's loop over \<open>i = 0 .. n - 1\<close>; the state is
  \<open>(distances, total)\<close>. The running total is pushed for every edge but the closing one.
\<close>

definition edgeStep ::
  "(real \<Rightarrow> real) \<Rightarrow> Vector2 list \<Rightarrow> nat \<Rightarrow> jsnum list \<times> jsnum \<Rightarrow> jsnum list \<times> jsnum" where
  "edgeStep rnd vs i st =
     (let n = length vs;
          next = (i + 1) mod n;
          edgeLength = distanceTo rnd (vs ! i) (vs ! next);
          total = jadd rnd (snd st) edgeLength
      in (if i < n - 1 then fst st @ [total] else fst st, total))"

definition cumulativeDistances :: "(real \<Rightarrow> real) \<Rightarrow> Vector2 list \<Rightarrow> jsnum list \<times> jsnum" where
  "cumulativeDistances rnd vs = fold (edgeStep rnd vs) [0..<length vs] ([Num 0], Num 0)"

text \<open>
  The invariant of the constructor's loop, for the proofs: whenever the running total is
  finite, it is a non-negative result of the rounding, and the distances pushed so far
  are finite, non-negative, non-decreasing and at most the total.
\<close>

definition distancesInv :: "(real \<Rightarrow> real) \<Rightarrow> jsnum list \<times> jsnum \<Rightarrow> bool" where
  "distancesInv rnd st =
     (\<forall>t. snd st = Num t \<longrightarrow>
        rnd t = t \<and> 0 \<le> t
      \<and> (\<exists>ds. fst st = map Num ds \<and> sorted ds \<and> (\<forall>d \<in> set ds. 0 \<le> d \<and> d \<le> t)))"

definition newParameterizedLoop :: "(real \<Rightarrow> real) \<Rightarrow> Vector2 list \<Rightarrow> ParameterizedLoop" where
  "newParameterizedLoop rnd vertices0 =
     (let vs = ensureWindingCCW rnd vertices0;
          dt = cumulativeDistances rnd vs;
          total = snd dt
      in \<lparr> vertices = vs,
           params = map (\<lambda>d. if jlt (Num 0) total then jdiv rnd d total else Num 0) (fst dt),
           totalLength = total \<rparr>)"

definition count :: "ParameterizedLoop \<Rightarrow> nat" where
  "count pl = length (vertices pl)"

text \<open>\<open>param(i)\<close>: the wrap sentinel 1.0 from index \<open>n\<close> on, the stored parameter below.\<close>

definition param :: "ParameterizedLoop \<Rightarrow> nat \<Rightarrow> jsnum" where
  "param pl i = (if i \<ge> count pl then Num 1 else params pl ! i)"

text \<open>
  \<open>vertex(i)\<close> is \<open>vertices[i % count]\<close>. On an empty loop JavaScript yields
  \<open>undefined\<close>, written \<open>None\<close>; every reader of the vertex then throws.
\<close>

definition vertex :: "ParameterizedLoop \<Rightarrow> nat \<Rightarrow> Vector2 option" where
  "vertex pl i = (if count pl = 0 then None else Some (vertices pl ! (i mod count pl)))"

definition interpolate ::
  "(real \<Rightarrow> real) \<Rightarrow> ParameterizedLoop \<Rightarrow> nat \<Rightarrow> jsnum \<Rightarrow> error + Vector2" where
  "interpolate rnd pl i t =
     (case (vertex pl i, vertex pl (i + 1)) of
        (Some v0, Some v1) \<Rightarrow>
          (let t0 = param pl i;
               t1 = param pl (i + 1);
               span = (if jlt t0 t1 then jsub rnd t1 t0 else jadd rnd (jsub rnd (Num 1) t0) t1)
           in if span = Num 0 then Inr v0
              else (let u = jdiv rnd (jsub rnd t t0) span
                    in Inr (Vector2 (jadd rnd (vx v0) (jmul rnd u (jsub rnd (vx v1) (vx v0))))
                                    (jadd rnd (vy v0) (jmul rnd u (jsub rnd (vy v1) (vy v0)))))))
      | _ \<Rightarrow> Inl TypeError)"

section \<open>FaceBuilder\<close>

record FaceBuilder =
  fb_faces :: "LoftFace list"
  heightA :: real
  heightB :: real

definition newFaceBuilder :: "real \<Rightarrow> real \<Rightarrow> FaceBuilder" where
  "newFaceBuilder hA hB = \<lparr> fb_faces = [], heightA = hA, heightB = hB \<rparr>"

definition toPoint3D_A :: "FaceBuilder \<Rightarrow> Vector2 \<Rightarrow> Vector3" where
  "toPoint3D_A fb p = Vector3 (vx p) (vy p) (heightA fb)"

definition toPoint3D_B :: "FaceBuilder \<Rightarrow> Vector2 \<Rightarrow> Vector3" where
  "toPoint3D_B fb p = Vector3 (vx p) (vy p) (heightB fb)"

definition addQuad :: "FaceBuilder \<Rightarrow> Vector2 \<Rightarrow> Vector2 \<Rightarrow> Vector2 \<Rightarrow> Vector2 \<Rightarrow> FaceBuilder" where
  "addQuad fb a0 a1 b0 b1 =
     fb \<lparr> fb_faces := fb_faces fb @
            [\<lparr> face_vertices = [toPoint3D_A fb a0, toPoint3D_A fb a1,
                                toPoint3D_B fb b1, toPoint3D_B fb b0] \<rparr>] \<rparr>"

definition addTriangle :: "FaceBuilder \<Rightarrow> Vector3 \<Rightarrow> Vector3 \<Rightarrow> Vector3 \<Rightarrow> FaceBuilder" where
  "addTriangle fb p0 p1 p2 =
     fb \<lparr> fb_faces := fb_faces fb @ [\<lparr> face_vertices = [p0, p1, p2] \<rparr>] \<rparr>"

definition getFaces :: "FaceBuilder \<Rightarrow> LoftFace list" where
  "getFaces fb = fb_faces fb"

section \<open>The perimeter walk\<close>

text \<open>The literal \<open>1e-9\<close>, as the double nearest to it.\<close>

definition EPS :: "(real \<Rightarrow> real) \<Rightarrow> jsnum" where
  "EPS rnd = Num (rnd (1 / 1000000000))"

text \<open>
  Reading \<open>.x\<close> of \<open>undefined\<close> throws a \<open>TypeError\<close>: \<open>defined\<close> marks the places
  where a vertex is dereferenced.
\<close>

definition defined :: "Vector2 option \<Rightarrow> error + Vector2" where
  "defined v = (case v of None \<Rightarrow> Inl TypeError | Some p \<Rightarrow> Inr p)"

text \<open>
  The call \<open>builder.addQuad(a0, a1, b0, b1)\<close> followed by the cursor update of the
  branch: the next walk state \<open>(iA, iB, builder)\<close>, or the exception.
\<close>

definition callAddQuad ::
  "FaceBuilder \<Rightarrow> error + Vector2 \<Rightarrow> error + Vector2 \<Rightarrow> error + Vector2 \<Rightarrow> error + Vector2 \<Rightarrow>
   nat \<Rightarrow> nat \<Rightarrow> error + (nat \<times> nat \<times> FaceBuilder)" where
  "callAddQuad builder a0 a1 b0 b1 iA' iB' =
     (case (a0, a1, b0, b1) of
        (Inr pa0, Inr pa1, Inr pb0, Inr pb1) \<Rightarrow> Inr (iA', iB', addQuad builder pa0 pa1 pb0 pb1)
      | _ \<Rightarrow> Inl TypeError)"

text \<open>
  The body of the \<open>while\<close> loop of \<open>walkPerimeters\<close>, branch by branch. (\<open>nA - 1\<close> is
  \<open>-1\<close> in the source when \<open>nA = 0\<close>; \<open>interpolate\<close> throws on an empty loop whatever
  the index.)
\<close>

definition walk_step ::
  "(real \<Rightarrow> real) \<Rightarrow> ParameterizedLoop \<Rightarrow> ParameterizedLoop \<Rightarrow> nat \<Rightarrow> nat \<Rightarrow> FaceBuilder \<Rightarrow>
   error + (nat \<times> nat \<times> FaceBuilder)" where
  "walk_step rnd loopA loopB iA iB builder =
     (let nA = count loopA;
          nB = count loopB;
          tNextA = param loopA (iA + 1);
          tNextB = param loopB (iB + 1);
          a0 = defined (vertex loopA iA);
          b0 = defined (vertex loopB iB)
      in if iA \<ge> nA then
           (let b1 = defined (vertex loopB (iB + 1));
                a1 = interpolate rnd loopA (nA - 1) tNextB
            in callAddQuad builder a0 a1 b0 b1 iA (iB + 1))
         else if iB \<ge> nB then
           (let a1 = defined (vertex loopA (iA + 1));
                b1 = interpolate rnd loopB (nB - 1) tNextA
            in callAddQuad builder a0 a1 b0 b1 (iA + 1) iB)
         else if jlt (jabs (jsub rnd tNextA tNextB)) (EPS rnd) then
           (let a1 = defined (vertex loopA (iA + 1));
                b1 = defined (vertex loopB (iB + 1))
            in callAddQuad builder a0 a1 b0 b1 (iA + 1) (iB + 1))
         else if jlt tNextA tNextB then
           (let a1 = defined (vertex loopA (iA + 1));
                b1 = interpolate rnd loopB iB tNextA
            in callAddQuad builder a0 a1 b0 b1 (iA + 1) iB)
         else
           (let a1 = interpolate rnd loopA iA tNextB;
                b1 = defined (vertex loopB (iB + 1))
            in callAddQuad builder a0 a1 b0 b1 iA (iB + 1)))"

function walk_loop ::
  "(real \<Rightarrow> real) \<Rightarrow> ParameterizedLoop \<Rightarrow> ParameterizedLoop \<Rightarrow> nat \<Rightarrow> nat \<Rightarrow> FaceBuilder \<Rightarrow>
   error + FaceBuilder" where
  "walk_loop rnd loopA loopB iA iB builder =
     (if iA < count loopA \<or> iB < count loopB then
        (case walk_step rnd loopA loopB iA iB builder of
           Inl e \<Rightarrow> Inl e
         | Inr (iA', iB', builder') \<Rightarrow> walk_loop rnd loopA loopB iA' iB' builder')
      else Inr builder)"
  by pat_completeness auto
termination
  apply (relation "measure (\<lambda>(rnd, loopA, loopB, iA, iB, builder).
                     (count loopA - iA) + (count loopB - iB))")
   apply simp
  apply (auto simp: walk_step_def callAddQuad_def Let_def split: if_splits sum.splits)
  done

declare walk_loop.simps [simp del]

definition walkPerimeters ::
  "(real \<Rightarrow> real) \<Rightarrow> ParameterizedLoop \<Rightarrow> ParameterizedLoop \<Rightarrow> FaceBuilder \<Rightarrow> error + FaceBuilder" where
  "walkPerimeters rnd loopA loopB builder = walk_loop rnd loopA loopB 0 0 builder"

section \<open>Aligning the starting points\<close>

text \<open>
  One iteration of the search loop; the state is \<open>(bestIndex, bestDist)\<close>, starting
  from \<open>(0, Infinity)\<close>.
\<close>

definition closestStep ::
  "(real \<Rightarrow> real) \<Rightarrow> Vector2 \<Rightarrow> Vector2 list \<Rightarrow> nat \<Rightarrow> nat \<times> jsnum \<Rightarrow> nat \<times> jsnum" where
  "closestStep rnd target loopB i st =
     (let dist = distanceTo rnd target (loopB ! i)
      in if jlt dist (snd st) then (i, dist) else st)"

text \<open>
  \<open>loopA[0]\<close> of an empty \<open>loopA\<close> is \<open>undefined\<close>; the first \<open>target.distanceTo\<close>
  then throws, unless \<open>loopB\<close> is empty and the loop body never runs.
\<close>

definition findClosestVertexIndex ::
  "(real \<Rightarrow> real) \<Rightarrow> Vector2 list \<Rightarrow> Vector2 list \<Rightarrow> error + nat" where
  "findClosestVertexIndex rnd loopA loopB =
     (case loopA of
        [] \<Rightarrow> (if loopB = [] then Inr 0 else Inl TypeError)
      | target # _ \<Rightarrow>
          Inr (fst (fold (closestStep rnd target loopB) [0..<length loopB] (0, PInf))))"

text \<open>
  Following the spec's words: the Euclidean distance between two points with finite
  coordinates, as a real number (not the double that \<open>distanceTo\<close> computes).
\<close>

definition euclideanDistance :: "Vector2 \<Rightarrow> Vector2 \<Rightarrow> real option" where
  "euclideanDistance p q =
     (case (vx p, vy p, vx q, vy q) of
        (Num x1, Num y1, Num x2, Num y2) \<Rightarrow> Some (sqrt ((x1 - x2) ^ 2 + (y1 - y2) ^ 2))
      | _ \<Rightarrow> None)"

definition rotateArray :: "'a list \<Rightarrow> nat \<Rightarrow> 'a list" where
  "rotateArray arr startIndex =
     (if startIndex = 0 \<or> length arr = 0 then arr
      else drop startIndex arr @ take startIndex arr)"

definition alignLoopStarts ::
  "(real \<Rightarrow> real) \<Rightarrow> Vector2 list \<Rightarrow> Vector2 list \<Rightarrow> error + Vector2 list" where
  "alignLoopStarts rnd loopA loopB =
     (case findClosestVertexIndex rnd loopA loopB of
        Inl e \<Rightarrow> Inl e
      | Inr closestIndex \<Rightarrow> Inr (rotateArray loopB closestIndex))"

section \<open>Algorithm entry point\<close>

definition perimeterWalkAlgorithm ::
  "(real \<Rightarrow> real) \<Rightarrow> Vector2 list \<Rightarrow> real \<Rightarrow> Vector2 list \<Rightarrow> real \<Rightarrow> error + LoftResult" where
  "perimeterWalkAlgorithm rnd loopA hA loopB hB =
     (if length loopA < 3 \<or> length loopB < 3 then Inr \<lparr> faces = [] \<rparr>
      else
        (let normalizedA = ensureWindingCCW rnd loopA;
             normalizedB = ensureWindingCCW rnd loopB
         in case alignLoopStarts rnd normalizedA normalizedB of
              Inl e \<Rightarrow> Inl e
            | Inr alignedB \<Rightarrow>
                (let paramA = newParameterizedLoop rnd normalizedA;
                     paramB = newParameterizedLoop rnd alignedB;
                     builder = newFaceBuilder hA hB
                 in case walkPerimeters rnd paramA paramB builder of
                      Inl e \<Rightarrow> Inl e
                    | Inr built \<Rightarrow> Inr \<lparr> faces = getFaces built \<rparr>)))"

section \<open>Where each corner of a quad comes from\<close>

text \<open>
  The faces hold coordinates only. To speak about exact and interpolated corners, each
  \<open>addQuad\<close> call of the walk is recorded with the expression that computes each of its
  arguments: \<open>Exact k\<close> is \<open>loop.vertex(i)\<close> with \<open>k = i % count\<close>, the loop's own vertex
  number \<open>k\<close>; \<open>Interp i t\<close> is \<open>loop.interpolate(i, t)\<close>, a point computed from edge
  \<open>i\<close>. \<open>advA\<close> and \<open>advB\<close> record which cursors the branch increments.
\<close>

datatype Corner = Exact nat | Interp nat jsnum

record QuadTrace =
  ca0 :: Corner
  ca1 :: Corner
  cb0 :: Corner
  cb1 :: Corner
  advA :: bool
  advB :: bool

definition stepTrace ::
  "(real \<Rightarrow> real) \<Rightarrow> ParameterizedLoop \<Rightarrow> ParameterizedLoop \<Rightarrow> nat \<Rightarrow> nat \<Rightarrow> QuadTrace" where
  "stepTrace rnd loopA loopB iA iB =
     (let nA = count loopA;
          nB = count loopB;
          tNextA = param loopA (iA + 1);
          tNextB = param loopB (iB + 1);
          a0 = Exact (iA mod nA);
          b0 = Exact (iB mod nB)
      in if iA \<ge> nA then
           \<lparr> ca0 = a0, ca1 = Interp (nA - 1) tNextB, cb0 = b0, cb1 = Exact ((iB + 1) mod nB),
             advA = False, advB = True \<rparr>
         else if iB \<ge> nB then
           \<lparr> ca0 = a0, ca1 = Exact ((iA + 1) mod nA), cb0 = b0, cb1 = Interp (nB - 1) tNextA,
             advA = True, advB = False \<rparr>
         else if jlt (jabs (jsub rnd tNextA tNextB)) (EPS rnd) then
           \<lparr> ca0 = a0, ca1 = Exact ((iA + 1) mod nA), cb0 = b0, cb1 = Exact ((iB + 1) mod nB),
             advA = True, advB = True \<rparr>
         else if jlt tNextA tNextB then
           \<lparr> ca0 = a0, ca1 = Exact ((iA + 1) mod nA), cb0 = b0, cb1 = Interp iB tNextA,
             advA = True, advB = False \<rparr>
         else
           \<lparr> ca0 = a0, ca1 = Interp iA tNextB, cb0 = b0, cb1 = Exact ((iB + 1) mod nB),
             advA = False, advB = True \<rparr>)"

function walkTrace ::
  "(real \<Rightarrow> real) \<Rightarrow> ParameterizedLoop \<Rightarrow> ParameterizedLoop \<Rightarrow> nat \<Rightarrow> nat \<Rightarrow> QuadTrace list" where
  "walkTrace rnd loopA loopB iA iB =
     (if iA < count loopA \<or> iB < count loopB then
        stepTrace rnd loopA loopB iA iB #
          walkTrace rnd loopA loopB
            (if advA (stepTrace rnd loopA loopB iA iB) then iA + 1 else iA)
            (if advB (stepTrace rnd loopA loopB iA iB) then iB + 1 else iB)
      else [])"
  by pat_completeness auto
termination
  apply (relation "measure (\<lambda>(rnd, loopA, loopB, iA, iB).
                     (count loopA - iA) + (count loopB - iB))")
   apply simp
  apply (auto simp: stepTrace_def Let_def split: if_splits)
  done

declare walkTrace.simps [simp del]

text \<open>Evaluating a recorded corner on its loop, and a recorded quad on the builder.\<close>

definition cornerPoint :: "(real \<Rightarrow> real) \<Rightarrow> ParameterizedLoop \<Rightarrow> Corner \<Rightarrow> error + Vector2" where
  "cornerPoint rnd pl c =
     (case c of Exact k \<Rightarrow> defined (vertex pl k) | Interp i t \<Rightarrow> interpolate rnd pl i t)"

fun traceFaces ::
  "(real \<Rightarrow> real) \<Rightarrow> ParameterizedLoop \<Rightarrow> ParameterizedLoop \<Rightarrow> FaceBuilder \<Rightarrow> QuadTrace list \<Rightarrow>
   error + FaceBuilder" where
  "traceFaces rnd loopA loopB builder [] = Inr builder"
| "traceFaces rnd loopA loopB builder (q # qs) =
     (case callAddQuad builder (cornerPoint rnd loopA (ca0 q)) (cornerPoint rnd loopA (ca1 q))
                               (cornerPoint rnd loopB (cb0 q)) (cornerPoint rnd loopB (cb1 q)) 0 0 of
        Inl e \<Rightarrow> Inl e
      | Inr (_, _, builder') \<Rightarrow> traceFaces rnd loopA loopB builder' qs)"








section \<open>Loft orchestrator\<close>

text \<open>
  Modelled from the spec: \<open>SketchPlane\<close> (\<open>3d/SketchPlane\<close>) is not among the source
  files. The spec (6): a plane exposes a height and an accessor returning its current
  closed-loop vertex sequence. \<open>planeId\<close> stands for the identity of the object.
\<close>

record SketchPlane =
  planeId :: nat
  getHeight :: real
  getVertices :: "Vector2 list"

record LoftSegment =
  bottomPlane :: SketchPlane
  topPlane :: SketchPlane
  seg_faces :: "LoftFace list"

record LoftableModel =
  segments :: "LoftSegment list"

type_synonym LoftAlgorithm =
  "Vector2 list \<Rightarrow> real \<Rightarrow> Vector2 list \<Rightarrow> real \<Rightarrow> error + LoftResult"

text \<open>
  Modelled from the spec: the registry (\<open>LoftAlgorithm.ts\<close>) is not among the source
  files. The spec (4.6): \<open>lookup(name) -> fn | absent\<close> over the registered names. The
  registry is a parameter of \<open>fromPlanes\<close> here, and so is the configured default
  \<open>LOFT.DEFAULT_ALGORITHM\<close> of the missing \<open>constants\<close> (\<open>None\<close> when nullish).
\<close>

type_synonym Registry = "string \<Rightarrow> LoftAlgorithm option"

definition getLoftAlgorithm :: "Registry \<Rightarrow> string \<Rightarrow> LoftAlgorithm option" where
  "getLoftAlgorithm registry name = registry name"

text \<open>
  The registry as the module leaves it at load time,
  \<open>registerLoftAlgorithm('perimeter-walk', perimeterWalkAlgorithm)\<close>, and a registry
  in which nothing was registered.
\<close>

definition registeredAlgorithms :: "(real \<Rightarrow> real) \<Rightarrow> Registry" where
  "registeredAlgorithms rnd name =
     (if name = ''perimeter-walk'' then Some (perimeterWalkAlgorithm rnd) else None)"

definition emptyRegistry :: Registry where
  "emptyRegistry name = None"

text \<open>The \<open>for\<close> loop of \<open>buildSegments\<close>, from index \<open>i\<close> on; an exception of the algorithm escapes.\<close>

function buildSegmentsFrom ::
  "SketchPlane list \<Rightarrow> LoftAlgorithm \<Rightarrow> nat \<Rightarrow> LoftSegment list \<Rightarrow> error + LoftableModel" where
  "buildSegmentsFrom planes algorithm i segs =
     (if i < length planes - 1 then
        (let bottom = planes ! i;
             top = planes ! (i + 1)
         in case algorithm (getVertices bottom) (getHeight bottom)
                           (getVertices top) (getHeight top) of
              Inl e \<Rightarrow> Inl e
            | Inr result \<Rightarrow>
                buildSegmentsFrom planes algorithm (i + 1)
                  (segs @ [\<lparr> bottomPlane = bottom, topPlane = top, seg_faces = faces result \<rparr>]))
      else Inr \<lparr> segments = segs \<rparr>)"
  by pat_completeness auto
termination
  by (relation "measure (\<lambda>(planes, algorithm, i, segs). length planes - 1 - i)") auto

declare buildSegmentsFrom.simps [simp del]

definition buildSegments :: "SketchPlane list \<Rightarrow> LoftAlgorithm \<Rightarrow> error + LoftableModel" where
  "buildSegments planes algorithm = buildSegmentsFrom planes algorithm 0 []"

text \<open>
  \<open>[...planes].sort((a, b) => a.getHeight() - b.getHeight())\<close>: \<open>Array.prototype.sort\<close>
  is stable, and the comparator orders by height, so the result is the stable sort by
  the key \<open>getHeight\<close>.
\<close>

definition sortPlanes :: "SketchPlane list \<Rightarrow> SketchPlane list" where
  "sortPlanes planes = sort_key getHeight planes"

definition unknownAlgorithmWarning :: "string \<Rightarrow> string" where
  "unknownAlgorithmWarning name = ''Unknown loft algorithm: '' @ name @ '', using perimeter-walk''"

text \<open>
  \<open>fromPlanes\<close> returns the lines written with \<open>console.warn\<close> and either the model or
  the exception thrown.
\<close>

definition fromPlanes ::
  "Registry \<Rightarrow> string option \<Rightarrow> SketchPlane list \<Rightarrow> string option \<Rightarrow>
   string list \<times> (error + LoftableModel)" where
  "fromPlanes registry DEFAULT_ALGORITHM planes algorithmName =
     (if length planes < 2 then ([], Inr \<lparr> segments = [] \<rparr>)
      else
        (let sortedPlanes = sortPlanes planes;
             name = (case algorithmName of
                       Some n \<Rightarrow> n
                     | None \<Rightarrow> (case DEFAULT_ALGORITHM of
                                  Some d \<Rightarrow> d
                                | None \<Rightarrow> ''perimeter-walk''))
         in case getLoftAlgorithm registry name of
              None \<Rightarrow>
                (case getLoftAlgorithm registry ''perimeter-walk'' of
                   None \<Rightarrow> ([unknownAlgorithmWarning name], Inl NoLoftAlgorithmsRegistered)
                 | Some fallback \<Rightarrow>
                     ([unknownAlgorithmWarning name], buildSegments sortedPlanes fallback))
            | Some algorithm \<Rightarrow> ([], buildSegments sortedPlanes algorithm)))"

definition getPlanes :: "LoftableModel \<Rightarrow> SketchPlane list" where
  "getPlanes model =
     (if length (segments model) = 0 then []
      else bottomPlane (segments model ! 0) # map topPlane (segments model))"

section \<open>Sample inputs\<close>

definition pt :: "real \<Rightarrow> real \<Rightarrow> Vector2" where
  "pt x y = Vector2 (Num x) (Num y)"

definition pt3 :: "real \<Rightarrow> real \<Rightarrow> real \<Rightarrow> Vector3" where
  "pt3 x y z = Vector3 (Num x) (Num y) z"

text \<open>
  The square of side 2, counter-clockwise from the origin; the same square with one more
  vertex in the middle of its top edge; the same square with its first vertex repeated
  at the end; the square listed from its top-left corner; and a loop whose vertices all
  coincide.
\<close>

definition square :: "Vector2 list" where
  "square = [pt 0 0, pt 2 0, pt 2 2, pt 0 2]"

definition squareMid :: "Vector2 list" where
  "squareMid = [pt 0 0, pt 2 0, pt 2 2, pt 1 2, pt 0 2]"

definition squareClosed :: "Vector2 list" where
  "squareClosed = [pt 0 0, pt 2 0, pt 2 2, pt 0 2, pt 0 0]"

definition squareTurned :: "Vector2 list" where
  "squareTurned = [pt 0 2, pt 0 0, pt 2 0, pt 2 2]"

definition pointLoop :: "Vector2 list" where
  "pointLoop = [pt 1 1, pt 1 1, pt 1 1]"

text \<open>
  The square with two more vertices just before its start, at heights \<open>2^-28\<close> and
  \<open>2^-29\<close> on its left edge; the square with one more vertex at height \<open>2^-29\<close> on its
  right edge; and a rectangle of the same perimeter, wider and lower than the square by
  \<open>2^-28\<close>. All coordinates, edge lengths and their sums are doubles, and double
  arithmetic computes from these loops the same parameters and corners as exact
  arithmetic does.
\<close>

definition squareTail :: "Vector2 list" where
  "squareTail = [pt 0 0, pt 2 0, pt 2 2, pt 0 2, pt 0 (1 / 268435456), pt 0 (1 / 536870912)]"



text \<open>
  The number \<open>1e200\<close>, whose square exceeds \<open>Number.MAX_VALUE\<close>; a right triangle
  with legs of that length; and two points on the x axis at that distance and at twice
  that distance from the origin.
\<close>

definition huge :: real where
  "huge = 10 ^ 200"

definition hugeTriangle :: "Vector2 list" where
  "hugeTriangle = [pt 0 0, pt huge 0, pt huge huge]"

definition farPair :: "Vector2 list" where
  "farPair = [pt (2 * huge) 0, pt huge 0]"

text \<open>
  Three planes without sketch vertices, given out of height order, two of them at the
  same height.
\<close>

definition planeUpper :: SketchPlane where
  "planeUpper = \<lparr> planeId = 0, getHeight = 5, getVertices = [] \<rparr>"

definition planeGround :: SketchPlane where
  "planeGround = \<lparr> planeId = 1, getHeight = 0, getVertices = [] \<rparr>"

definition planeUpperTwin :: SketchPlane where
  "planeUpperTwin = \<lparr> planeId = 2, getHeight = 5, getVertices = [] \<rparr>"

section \<open>The walk: auxiliary facts\<close>

lemma vertex_nonempty: "0 < count pl \<Longrightarrow> vertex pl i = Some (vertices pl ! (i mod count pl))"
  by (simp add: vertex_def)

lemma interpolate_nonempty: "0 < count pl \<Longrightarrow> \<exists>p. interpolate rnd pl i t = Inr p"
  by (simp add: interpolate_def vertex_def Let_def)

lemma walk_step_shape:
  assumes "0 < count loopA" "0 < count loopB"
  shows "\<exists>a0 a1 b0 b1 dA dB.
           walk_step rnd loopA loopB iA iB fb = Inr (iA + dA, iB + dB, addQuad fb a0 a1 b0 b1)
         \<and> dA \<le> 1 \<and> dB \<le> 1 \<and> 0 < dA + dB
         \<and> (count loopA \<le> iA \<longrightarrow> dA = 0)
         \<and> (iA < count loopA \<and> count loopB \<le> iB \<longrightarrow> dB = 0)"
proof -
  obtain pa where pa: "interpolate rnd loopA (count loopA - 1) (param loopB (iB + 1)) = Inr pa"
    using interpolate_nonempty[OF assms(1)] by blast
  obtain pa' where pa': "interpolate rnd loopA iA (param loopB (iB + 1)) = Inr pa'"
    using interpolate_nonempty[OF assms(1)] by blast
  obtain pb where pb: "interpolate rnd loopB (count loopB - 1) (param loopA (iA + 1)) = Inr pb"
    using interpolate_nonempty[OF assms(2)] by blast
  obtain pb' where pb': "interpolate rnd loopB iB (param loopA (iA + 1)) = Inr pb'"
    using interpolate_nonempty[OF assms(2)] by blast
  consider (ax) "count loopA \<le> iA"
    | (bx) "iA < count loopA" "count loopB \<le> iB"
    | (tie) "iA < count loopA" "iB < count loopB" "jlt (jabs (jsub rnd (param loopA (iA + 1)) (param loopB (iB + 1)))) (EPS rnd)"
    | (al) "iA < count loopA" "iB < count loopB" "\<not> jlt (jabs (jsub rnd (param loopA (iA + 1)) (param loopB (iB + 1)))) (EPS rnd)"
           "jlt (param loopA (iA + 1)) (param loopB (iB + 1))"
    | (bl) "iA < count loopA" "iB < count loopB" "\<not> jlt (jabs (jsub rnd (param loopA (iA + 1)) (param loopB (iB + 1)))) (EPS rnd)"
           "\<not> jlt (param loopA (iA + 1)) (param loopB (iB + 1))"
    by (meson not_le_imp_less)
  then show ?thesis
  proof cases
    case ax
    then have "walk_step rnd loopA loopB iA iB fb =
        Inr (iA + 0, iB + 1, addQuad fb (vertices loopA ! (iA mod count loopA)) pa
               (vertices loopB ! (iB mod count loopB)) (vertices loopB ! ((iB + 1) mod count loopB)))"
      using assms pa by (simp add: walk_step_def callAddQuad_def defined_def vertex_nonempty Let_def)
    with ax show ?thesis by (intro exI conjI) (assumption, simp_all)
  next
    case bx
    then have "walk_step rnd loopA loopB iA iB fb =
        Inr (iA + 1, iB + 0, addQuad fb (vertices loopA ! (iA mod count loopA))
               (vertices loopA ! ((iA + 1) mod count loopA))
               (vertices loopB ! (iB mod count loopB)) pb)"
      using assms pb by (simp add: walk_step_def callAddQuad_def defined_def vertex_nonempty Let_def)
    with bx show ?thesis by (intro exI conjI) (assumption, simp_all)
  next
    case tie
    then have "walk_step rnd loopA loopB iA iB fb =
        Inr (iA + 1, iB + 1, addQuad fb (vertices loopA ! (iA mod count loopA))
               (vertices loopA ! ((iA + 1) mod count loopA))
               (vertices loopB ! (iB mod count loopB)) (vertices loopB ! ((iB + 1) mod count loopB)))"
      using assms by (simp add: walk_step_def callAddQuad_def defined_def vertex_nonempty Let_def)
    with tie show ?thesis by (intro exI conjI) (assumption, simp_all)
  next
    case al
    then have "walk_step rnd loopA loopB iA iB fb =
        Inr (iA + 1, iB + 0, addQuad fb (vertices loopA ! (iA mod count loopA))
               (vertices loopA ! ((iA + 1) mod count loopA))
               (vertices loopB ! (iB mod count loopB)) pb')"
      using assms pb' by (simp add: walk_step_def callAddQuad_def defined_def vertex_nonempty Let_def)
    with al show ?thesis by (intro exI conjI) (assumption, simp_all)
  next
    case bl
    then have "walk_step rnd loopA loopB iA iB fb =
        Inr (iA + 0, iB + 1, addQuad fb (vertices loopA ! (iA mod count loopA)) pa'
               (vertices loopB ! (iB mod count loopB)) (vertices loopB ! ((iB + 1) mod count loopB)))"
      using assms pa' by (simp add: walk_step_def callAddQuad_def defined_def vertex_nonempty Let_def)
    with bl show ?thesis by (intro exI conjI) (assumption, simp_all)
  qed
qed

lemma walk_step_cursor_bound:
  assumes "0 < count loopA" "0 < count loopB" "iA \<le> count loopA" "iB \<le> count loopB"
    and "iA < count loopA \<or> iB < count loopB"
    and "walk_step rnd loopA loopB iA iB fb = Inr (iA', iB', fb')"
  shows "iA' \<le> count loopA \<and> iB' \<le> count loopB"
proof -
  obtain a0 a1 b0 b1 dA dB where
    st: "walk_step rnd loopA loopB iA iB fb = Inr (iA + dA, iB + dB, addQuad fb a0 a1 b0 b1)"
    and d: "dA \<le> 1" "dB \<le> 1"
    and xa: "count loopA \<le> iA \<longrightarrow> dA = 0"
    and xb: "iA < count loopA \<and> count loopB \<le> iB \<longrightarrow> dB = 0"
    using walk_step_shape[OF assms(1,2), where rnd = rnd and iA = iA and iB = iB and fb = fb] by blast
  from st assms(6) have "iA' = iA + dA" "iB' = iB + dB" by simp_all
  with d xa xb assms(3,4,5) show ?thesis by auto
qed

lemma walk_loop_faces:
  assumes "0 < count loopA" "0 < count loopB" "iA \<le> count loopA" "iB \<le> count loopB"
  shows "\<exists>new. walk_loop rnd loopA loopB iA iB fb = Inr (fb \<lparr> fb_faces := fb_faces fb @ new \<rparr>)
           \<and> length new \<le> (count loopA - iA) + (count loopB - iB)
           \<and> max (count loopA - iA) (count loopB - iB) \<le> length new
           \<and> (\<forall>f \<in> set new. length (face_vertices f) = 4)"
  using assms
proof (induction rnd loopA loopB iA iB fb rule: walk_loop.induct)
  case (1 rnd loopA loopB iA iB fb)
  show ?case
  proof (cases "iA < count loopA \<or> iB < count loopB")
    case False
    then have "walk_loop rnd loopA loopB iA iB fb = Inr fb"
      by (simp add: walk_loop.simps)
    with False show ?thesis
      by (intro exI[of _ "[]"]) simp
  next
    case True
    obtain a0 a1 b0 b1 dA dB where
      st: "walk_step rnd loopA loopB iA iB fb = Inr (iA + dA, iB + dB, addQuad fb a0 a1 b0 b1)"
      and d: "dA \<le> 1" "dB \<le> 1" "0 < dA + dB"
      and xa: "count loopA \<le> iA \<longrightarrow> dA = 0"
      and xb: "iA < count loopA \<and> count loopB \<le> iB \<longrightarrow> dB = 0"
      using walk_step_shape[OF "1.prems"(1,2), where rnd = rnd and iA = iA and iB = iB and fb = fb] by blast
    have bA: "iA + dA \<le> count loopA" and bB: "iB + dB \<le> count loopB"
      using True d xa xb "1.prems"(3,4) by auto
    from "1.IH"[OF True st refl refl "1.prems"(1,2) bA bB]
    obtain new where
      rec: "walk_loop rnd loopA loopB (iA + dA) (iB + dB) (addQuad fb a0 a1 b0 b1) =
              Inr ((addQuad fb a0 a1 b0 b1) \<lparr> fb_faces := fb_faces (addQuad fb a0 a1 b0 b1) @ new \<rparr>)"
      and le: "length new \<le> (count loopA - (iA + dA)) + (count loopB - (iB + dB))"
      and ge: "max (count loopA - (iA + dA)) (count loopB - (iB + dB)) \<le> length new"
      and four: "\<forall>f \<in> set new. length (face_vertices f) = 4"
      by blast
    let ?q = "\<lparr> face_vertices = [toPoint3D_A fb a0, toPoint3D_A fb a1,
                                  toPoint3D_B fb b1, toPoint3D_B fb b0] \<rparr>"
    have "walk_loop rnd loopA loopB iA iB fb = Inr (fb \<lparr> fb_faces := fb_faces fb @ (?q # new) \<rparr>)"
      using True st rec by (subst walk_loop.simps) (simp add: addQuad_def)
    moreover have "length (?q # new) \<le> (count loopA - iA) + (count loopB - iB)"
      using le d bA bB by (simp del: diff_diff_left) arith
    moreover have "max (count loopA - iA) (count loopB - iB) \<le> length (?q # new)"
      using ge d by (simp del: diff_diff_left) arith
    moreover have "\<forall>f \<in> set (?q # new). length (face_vertices f) = 4"
      using four by simp
    ultimately show ?thesis by blast
  qed
qed

lemma vertex_mod: "vertex pl (i mod count pl) = vertex pl i"
  by (simp add: vertex_def)

lemma walk_step_trace:
  "walk_step rnd loopA loopB iA iB fb =
     callAddQuad fb (cornerPoint rnd loopA (ca0 (stepTrace rnd loopA loopB iA iB)))
                    (cornerPoint rnd loopA (ca1 (stepTrace rnd loopA loopB iA iB)))
                    (cornerPoint rnd loopB (cb0 (stepTrace rnd loopA loopB iA iB)))
                    (cornerPoint rnd loopB (cb1 (stepTrace rnd loopA loopB iA iB)))
                    (if advA (stepTrace rnd loopA loopB iA iB) then iA + 1 else iA)
                    (if advB (stepTrace rnd loopA loopB iA iB) then iB + 1 else iB)"
  by (simp add: walk_step_def stepTrace_def cornerPoint_def vertex_mod Let_def)

lemma callAddQuad_cursors:
  "callAddQuad fb a0 a1 b0 b1 i j =
     (case callAddQuad fb a0 a1 b0 b1 0 0 of
        Inl e \<Rightarrow> Inl e
      | Inr (_, _, fb') \<Rightarrow> Inr (i, j, fb'))"
  by (simp add: callAddQuad_def split: sum.splits)

lemma walk_loop_trace:
  "walk_loop rnd loopA loopB iA iB fb = traceFaces rnd loopA loopB fb (walkTrace rnd loopA loopB iA iB)"
proof (induction rnd loopA loopB iA iB fb rule: walk_loop.induct)
  case (1 rnd loopA loopB iA iB fb)
  show ?case
  proof (cases "iA < count loopA \<or> iB < count loopB")
    case False
    then show ?thesis
      by (simp add: walk_loop.simps[of rnd loopA loopB iA iB] walkTrace.simps[of rnd loopA loopB iA iB])
  next
    case True
    let ?q = "stepTrace rnd loopA loopB iA iB"
    let ?c = "callAddQuad fb (cornerPoint rnd loopA (ca0 ?q)) (cornerPoint rnd loopA (ca1 ?q))
                (cornerPoint rnd loopB (cb0 ?q)) (cornerPoint rnd loopB (cb1 ?q)) 0 0"
    let ?iA = "if advA ?q then iA + 1 else iA"
    let ?iB = "if advB ?q then iB + 1 else iB"
    have tr: "walkTrace rnd loopA loopB iA iB = ?q # walkTrace rnd loopA loopB ?iA ?iB"
      using True by (subst walkTrace.simps) simp
    have st: "walk_step rnd loopA loopB iA iB fb =
                (case ?c of Inl e \<Rightarrow> Inl e | Inr (_, _, fb') \<Rightarrow> Inr (?iA, ?iB, fb'))"
      by (subst walk_step_trace, subst callAddQuad_cursors) (rule refl)
    show ?thesis
    proof (cases ?c)
      case (Inl e)
      then show ?thesis
        using True st tr by (subst walk_loop.simps) simp
    next
      case (Inr r)
      obtain x y fb' where r: "r = (x, y, fb')" by (cases r)
      have st': "walk_step rnd loopA loopB iA iB fb = Inr (?iA, ?iB, fb')"
        using st Inr r by simp
      have "walk_loop rnd loopA loopB iA iB fb = walk_loop rnd loopA loopB ?iA ?iB fb'"
        using True st' by (subst walk_loop.simps) simp
      also have "\<dots> = traceFaces rnd loopA loopB fb' (walkTrace rnd loopA loopB ?iA ?iB)"
        by (rule "1.IH"[OF True st' refl refl])
      also have "\<dots> = traceFaces rnd loopA loopB fb (walkTrace rnd loopA loopB iA iB)"
        using Inr r tr by simp
      finally show ?thesis .
    qed
  qed
qed








section \<open>Exact arithmetic on small numbers\<close>

lemma MAX_VALUE_bounds: "1000000 \<le> MAX_VALUE" "MAX_VALUE < 10 ^ 309"
  by (simp_all add: MAX_VALUE_def)

lemma fin_exact [simp]: "\<bar>r\<bar> \<le> 1000000 \<Longrightarrow> fin exact r = Num r"
  using MAX_VALUE_bounds(1) by (auto simp: fin_def exact_def)

lemma jsub_exact [simp]: "\<bar>a - b\<bar> \<le> 1000000 \<Longrightarrow> jsub exact (Num a) (Num b) = Num (a - b)"
  by (simp add: jsub_def)

lemma distanceTo_horizontal:
  assumes "\<bar>x1 - x2\<bar> \<le> 1000"
  shows "distanceTo exact (pt x1 y) (pt x2 y) = Num \<bar>x1 - x2\<bar>"
proof -
  have "(x1 - x2) * (x1 - x2) = \<bar>x1 - x2\<bar> * \<bar>x1 - x2\<bar>" by simp
  also have "\<dots> \<le> 1000 * 1000"
    using assms by (intro mult_mono) simp_all
  finally have sq: "\<bar>(x1 - x2) * (x1 - x2)\<bar> \<le> 1000000" by (simp add: abs_mult)
  have d: "\<bar>x1 - x2\<bar> \<le> 1000000" using assms by simp
  show ?thesis
    using sq d by (simp add: distanceTo_def pt_def Let_def exact_def)
qed

lemma distanceTo_vertical:
  assumes "\<bar>y1 - y2\<bar> \<le> 1000"
  shows "distanceTo exact (pt x y1) (pt x y2) = Num \<bar>y1 - y2\<bar>"
proof -
  have "(y1 - y2) * (y1 - y2) = \<bar>y1 - y2\<bar> * \<bar>y1 - y2\<bar>" by simp
  also have "\<dots> \<le> 1000 * 1000"
    using assms by (intro mult_mono) simp_all
  finally have sq: "\<bar>(y1 - y2) * (y1 - y2)\<bar> \<le> 1000000" by (simp add: abs_mult)
  have d: "\<bar>y1 - y2\<bar> \<le> 1000000" using assms by simp
  show ?thesis
    using sq d by (simp add: distanceTo_def pt_def Let_def exact_def)
qed

section \<open>Sample loops: winding, parameters and recorded quads\<close>

lemma square_ccw: "ensureWindingCCW exact square = square"
  by (simp add: ensureWindingCCW_def signedArea_def shoelaceTerm_def square_def pt_def)

lemma squareMid_ccw: "ensureWindingCCW exact squareMid = squareMid"
  by (simp add: ensureWindingCCW_def signedArea_def shoelaceTerm_def squareMid_def pt_def)

lemma squareClosed_ccw: "ensureWindingCCW exact squareClosed = squareClosed"
  by (simp add: ensureWindingCCW_def signedArea_def shoelaceTerm_def squareClosed_def pt_def)

lemma squareTail_ccw: "ensureWindingCCW exact squareTail = squareTail"
  by (simp add: ensureWindingCCW_def signedArea_def shoelaceTerm_def squareTail_def pt_def)



lemma pointLoop_ccw: "ensureWindingCCW exact pointLoop = pointLoop"
  by (simp add: ensureWindingCCW_def signedArea_def shoelaceTerm_def pointLoop_def pt_def)

lemma square_params:
  "newParameterizedLoop exact square =
     \<lparr> vertices = square, params = [Num 0, Num (1/4), Num (1/2), Num (3/4)],
       totalLength = Num 8 \<rparr>"
  unfolding newParameterizedLoop_def square_ccw
  by (simp add: cumulativeDistances_def edgeStep_def square_def distanceTo_horizontal
        distanceTo_vertical Let_def)

lemma squareMid_params:
  "newParameterizedLoop exact squareMid =
     \<lparr> vertices = squareMid, params = [Num 0, Num (1/4), Num (1/2), Num (5/8), Num (3/4)],
       totalLength = Num 8 \<rparr>"
  unfolding newParameterizedLoop_def squareMid_ccw
  by (simp add: cumulativeDistances_def edgeStep_def squareMid_def distanceTo_horizontal
        distanceTo_vertical Let_def)

lemma squareClosed_params:
  "newParameterizedLoop exact squareClosed =
     \<lparr> vertices = squareClosed, params = [Num 0, Num (1/4), Num (1/2), Num (3/4), Num 1],
       totalLength = Num 8 \<rparr>"
  unfolding newParameterizedLoop_def squareClosed_ccw
  by (simp add: cumulativeDistances_def edgeStep_def squareClosed_def distanceTo_horizontal
        distanceTo_vertical Let_def)

lemma pointLoop_params:
  "newParameterizedLoop exact pointLoop =
     \<lparr> vertices = pointLoop, params = [Num 0, Num 0, Num 0], totalLength = Num 0 \<rparr>"
  unfolding newParameterizedLoop_def pointLoop_ccw
  by (simp add: cumulativeDistances_def edgeStep_def pointLoop_def distanceTo_horizontal
        distanceTo_vertical Let_def)

lemma squareTail_params:
  "newParameterizedLoop exact squareTail =
     \<lparr> vertices = squareTail,
       params = [Num 0, Num (1/4), Num (1/2), Num (3/4), Num (1 - 1 / 2147483648),
                 Num (1 - 1 / 4294967296)],
       totalLength = Num 8 \<rparr>"
  unfolding newParameterizedLoop_def squareTail_ccw
  by (simp add: cumulativeDistances_def edgeStep_def squareTail_def distanceTo_horizontal
        distanceTo_vertical Let_def)




lemma squareClosed_trace:
  "walkTrace exact (newParameterizedLoop exact square) (newParameterizedLoop exact squareClosed) 0 0 =
     [\<lparr> ca0 = Exact 0, ca1 = Exact 1, cb0 = Exact 0, cb1 = Exact 1, advA = True, advB = True \<rparr>,
      \<lparr> ca0 = Exact 1, ca1 = Exact 2, cb0 = Exact 1, cb1 = Exact 2, advA = True, advB = True \<rparr>,
      \<lparr> ca0 = Exact 2, ca1 = Exact 3, cb0 = Exact 2, cb1 = Exact 3, advA = True, advB = True \<rparr>,
      \<lparr> ca0 = Exact 3, ca1 = Exact 0, cb0 = Exact 3, cb1 = Exact 4, advA = True, advB = True \<rparr>,
      \<lparr> ca0 = Exact 0, ca1 = Interp 3 (Num 1), cb0 = Exact 4, cb1 = Exact 0,
        advA = False, advB = True \<rparr>]"
  unfolding square_params squareClosed_params
  by (simp add: walkTrace.simps stepTrace_def count_def param_def EPS_def exact_def square_def
        squareClosed_def Let_def)

lemma squareMid_trace:
  "walkTrace exact (newParameterizedLoop exact square) (newParameterizedLoop exact squareMid) 0 0 =
     [\<lparr> ca0 = Exact 0, ca1 = Exact 1, cb0 = Exact 0, cb1 = Exact 1, advA = True, advB = True \<rparr>,
      \<lparr> ca0 = Exact 1, ca1 = Exact 2, cb0 = Exact 1, cb1 = Exact 2, advA = True, advB = True \<rparr>,
      \<lparr> ca0 = Exact 2, ca1 = Interp 2 (Num (5/8)), cb0 = Exact 2, cb1 = Exact 3,
        advA = False, advB = True \<rparr>,
      \<lparr> ca0 = Exact 2, ca1 = Exact 3, cb0 = Exact 3, cb1 = Exact 4, advA = True, advB = True \<rparr>,
      \<lparr> ca0 = Exact 3, ca1 = Exact 0, cb0 = Exact 4, cb1 = Exact 0, advA = True, advB = True \<rparr>]"
  unfolding square_params squareMid_params
  by (simp add: walkTrace.simps stepTrace_def count_def param_def EPS_def exact_def square_def
        squareMid_def Let_def)

lemma squareTail_trace:
  "walkTrace exact (newParameterizedLoop exact square) (newParameterizedLoop exact squareTail) 0 0 =
     [\<lparr> ca0 = Exact 0, ca1 = Exact 1, cb0 = Exact 0, cb1 = Exact 1, advA = True, advB = True \<rparr>,
      \<lparr> ca0 = Exact 1, ca1 = Exact 2, cb0 = Exact 1, cb1 = Exact 2, advA = True, advB = True \<rparr>,
      \<lparr> ca0 = Exact 2, ca1 = Exact 3, cb0 = Exact 2, cb1 = Exact 3, advA = True, advB = True \<rparr>,
      \<lparr> ca0 = Exact 3, ca1 = Exact 0, cb0 = Exact 3, cb1 = Exact 4, advA = True, advB = True \<rparr>,
      \<lparr> ca0 = Exact 0, ca1 = Interp 3 (Num (1 - 1 / 4294967296)), cb0 = Exact 4, cb1 = Exact 5,
        advA = False, advB = True \<rparr>,
      \<lparr> ca0 = Exact 0, ca1 = Interp 3 (Num 1), cb0 = Exact 5, cb1 = Exact 0,
        advA = False, advB = True \<rparr>]"
  unfolding square_params squareTail_params
  by (simp add: walkTrace.simps stepTrace_def count_def param_def EPS_def exact_def square_def
        squareTail_def Let_def)


section \<open>Recorded quads: auxiliary facts\<close>





section \<open>Comparison, alignment and orchestration: auxiliary facts\<close>

lemma jlt_irrefl: "\<not> jlt x x"
  by (cases x) simp_all

lemma jlt_trans: "jlt x y \<Longrightarrow> jlt y z \<Longrightarrow> jlt x z"
  by (cases x; cases y; cases z) simp_all

lemma jle_jlt_trans: "jle x y \<Longrightarrow> jlt y z \<Longrightarrow> jlt x z"
  by (cases x; cases y; cases z) simp_all

lemma jlt_PInf_left: "\<not> jlt PInf y"
  by (cases y) simp_all

lemma jlt_NaN_right: "\<not> jlt x NaN"
  by (cases x) simp_all

lemma not_jlt_PInf: "\<not> jlt x PInf \<Longrightarrow> x = PInf \<or> x = NaN"
  by (cases x) simp_all

lemma jle_above: "\<not> jlt x PInf \<Longrightarrow> jlt y PInf \<Longrightarrow> \<not> jle x y"
  by (cases x; cases y) simp_all

text \<open>The search loop over an arbitrary sequence of computed distances \<open>f\<close>.\<close>

lemma closest_fold:
  fixes f :: "nat \<Rightarrow> jsnum"
  defines "step \<equiv> (\<lambda>i st. if jlt (f i) (snd st) then (i, f i) else st)"
  shows "(fst (fold step [0..<n] (0, PInf)) = 0 \<and> snd (fold step [0..<n] (0, PInf)) = PInf
            \<and> (\<forall>j < n. \<not> jlt (f j) PInf))
       \<or> (fst (fold step [0..<n] (0, PInf)) < n
            \<and> snd (fold step [0..<n] (0, PInf)) = f (fst (fold step [0..<n] (0, PInf)))
            \<and> jlt (f (fst (fold step [0..<n] (0, PInf)))) PInf
            \<and> (\<forall>j < n. \<not> jlt (f j) (f (fst (fold step [0..<n] (0, PInf)))))
            \<and> (\<forall>j < fst (fold step [0..<n] (0, PInf)).
                   \<not> jle (f j) (f (fst (fold step [0..<n] (0, PInf))))))"
proof (induction n)
  case 0
  show ?case by simp
next
  case (Suc n)
  define st where "st = fold step [0..<n] (0, PInf)"
  have unf: "fold step [0..<Suc n] (0, PInf) = step n st" by (simp add: st_def)
  from Suc[folded st_def] show ?case
  proof (elim disjE conjE)
    assume none: "fst st = 0" "snd st = PInf" "\<forall>j < n. \<not> jlt (f j) PInf"
    show ?thesis
    proof (cases "jlt (f n) PInf")
      case True
      then have s: "step n st = (n, f n)" using none(2) by (simp add: step_def)
      have a: "\<forall>j < Suc n. \<not> jlt (f j) (f n)"
      proof (intro allI impI)
        fix j assume "j < Suc n"
        show "\<not> jlt (f j) (f n)"
        proof (cases "j = n")
          case True
          then show ?thesis by (simp add: jlt_irrefl)
        next
          case False
          with \<open>j < Suc n\<close> have "j < n" by simp
          then have "f j = PInf \<or> f j = NaN" using none(3) not_jlt_PInf by blast
          then show ?thesis by (auto simp: jlt_PInf_left)
        qed
      qed
      have b: "\<forall>j < n. \<not> jle (f j) (f n)"
        using none(3) True jle_above by blast
      show ?thesis unfolding unf s using True a b by simp
    next
      case False
      then have s: "step n st = st" using none(2) by (simp add: step_def)
      have "\<forall>j < Suc n. \<not> jlt (f j) PInf"
        using none(3) False by (simp add: less_Suc_eq)
      then show ?thesis unfolding unf s using none(1,2) by simp
    qed
  next
    assume some: "fst st < n" "snd st = f (fst st)" "jlt (f (fst st)) PInf"
        "\<forall>j < n. \<not> jlt (f j) (f (fst st))" "\<forall>j < fst st. \<not> jle (f j) (f (fst st))"
    show ?thesis
    proof (cases "jlt (f n) (f (fst st))")
      case True
      then have s: "step n st = (n, f n)" using some(2) by (simp add: step_def)
      have p: "jlt (f n) PInf" using True some(3) jlt_trans by blast
      have a: "\<forall>j < Suc n. \<not> jlt (f j) (f n)"
      proof (intro allI impI)
        fix j assume "j < Suc n"
        show "\<not> jlt (f j) (f n)"
        proof (cases "j = n")
          case True
          then show ?thesis by (simp add: jlt_irrefl)
        next
          case False
          with \<open>j < Suc n\<close> have "j < n" by simp
          then have "\<not> jlt (f j) (f (fst st))" using some(4) by blast
          then show ?thesis using True jlt_trans by blast
        qed
      qed
      have b: "\<forall>j < n. \<not> jle (f j) (f n)"
      proof (intro allI impI)
        fix j assume "j < n"
        then have "\<not> jlt (f j) (f (fst st))" using some(4) by blast
        then show "\<not> jle (f j) (f n)" using True jle_jlt_trans by blast
      qed
      show ?thesis unfolding unf s using p a b by simp
    next
      case False
      then have s: "step n st = st" using some(2) by (simp add: step_def)
      have "\<forall>j < Suc n. \<not> jlt (f j) (f (fst st))"
        using some(4) False by (simp add: less_Suc_eq)
      then show ?thesis unfolding unf s using some by simp
    qed
  qed
qed

lemma closestStep_fold:
  "fold (closestStep rnd target loopB) [0..<n] st =
     fold (\<lambda>i st. if jlt (distanceTo rnd target (loopB ! i)) (snd st)
                   then (i, distanceTo rnd target (loopB ! i)) else st) [0..<n] st"
  by (rule arg_cong[where f = "\<lambda>g. fold g [0..<n] st"]) (simp add: closestStep_def fun_eq_iff Let_def)

lemma findClosestVertexIndex_props:
  assumes "loopA \<noteq> []" "loopB \<noteq> []"
  shows "\<exists>k. findClosestVertexIndex rnd loopA loopB = Inr k
           \<and> k < length loopB
           \<and> (\<forall>j < length loopB.
                 \<not> jlt (distanceTo rnd (loopA ! 0) (loopB ! j)) (distanceTo rnd (loopA ! 0) (loopB ! k)))
           \<and> (\<forall>j < k.
                 \<not> jle (distanceTo rnd (loopA ! 0) (loopB ! j)) (distanceTo rnd (loopA ! 0) (loopB ! k)))"
proof -
  obtain target rest where a: "loopA = target # rest"
    using assms(1) by (cases loopA) auto
  let ?n = "length loopB"
  define f where "f = (\<lambda>i. distanceTo rnd target (loopB ! i))"
  define st where
    "st = fold (\<lambda>i st. if jlt (f i) (snd st) then (i, f i) else st) [0..<length loopB] (0, PInf)"
  have n: "0 < ?n" using assms(2) by simp
  have fc: "findClosestVertexIndex rnd loopA loopB = Inr (fst st)"
    unfolding st_def f_def by (simp add: findClosestVertexIndex_def a closestStep_fold)
  from closest_fold[of f ?n, folded st_def] show ?thesis
  proof (elim disjE conjE)
    assume none: "fst st = 0" "snd st = PInf" "\<forall>j < ?n. \<not> jlt (f j) PInf"
    have "f 0 = PInf \<or> f 0 = NaN" using none(3) n not_jlt_PInf by blast
    moreover have "\<forall>j < ?n. f j = PInf \<or> f j = NaN" using none(3) not_jlt_PInf by blast
    ultimately have "\<forall>j < ?n. \<not> jlt (f j) (f 0)" by (auto simp: jlt_PInf_left)
    with none(1) n fc show ?thesis unfolding a f_def by (intro exI[of _ 0]) simp
  next
    assume some: "fst st < ?n" "\<forall>j < ?n. \<not> jlt (f j) (f (fst st))"
        "\<forall>j < fst st. \<not> jle (f j) (f (fst st))"
    with fc show ?thesis unfolding a f_def by (intro exI[of _ "fst st"]) simp
  qed
qed

lemma ensureWindingCCW_length: "length (ensureWindingCCW rnd ps) = length ps"
  by (simp add: ensureWindingCCW_def)


lemma ensureWindingCCW_Nil: "(ensureWindingCCW rnd vs = []) = (vs = [])"
  by (simp add: ensureWindingCCW_def)

lemma rotateArray_length: "length (rotateArray arr k) = length arr"
  by (auto simp: rotateArray_def)

lemma rotateArray_rotate:
  assumes "k < length arr"
  shows "rotateArray arr k = rotate k arr"
  using assms by (auto simp: rotateArray_def rotate_drop_take)

lemma count_newParameterizedLoop: "count (newParameterizedLoop rnd vs) = length vs"
  by (simp add: count_def newParameterizedLoop_def Let_def ensureWindingCCW_length)


lemma alignLoopStarts_rotate:
  assumes "loopA \<noteq> []" "loopB \<noteq> []"
  shows "\<exists>k. findClosestVertexIndex rnd loopA loopB = Inr k \<and> k < length loopB
            \<and> alignLoopStarts rnd loopA loopB = Inr (rotate k loopB)"
proof -
  obtain k where k: "findClosestVertexIndex rnd loopA loopB = Inr k" "k < length loopB"
    using findClosestVertexIndex_props[OF assms] by blast
  then have "alignLoopStarts rnd loopA loopB = Inr (rotate k loopB)"
    by (simp add: alignLoopStarts_def rotateArray_rotate)
  with k show ?thesis by blast
qed

lemma perimeterWalkAlgorithm_walk:
  assumes "3 \<le> length loopA" "3 \<le> length loopB"
  shows "\<exists>k. k < length loopB
         \<and> alignLoopStarts rnd (ensureWindingCCW rnd loopA) (ensureWindingCCW rnd loopB) =
             Inr (rotate k (ensureWindingCCW rnd loopB))
         \<and> perimeterWalkAlgorithm rnd loopA hA loopB hB =
             (case walkPerimeters rnd (newParameterizedLoop rnd (ensureWindingCCW rnd loopA))
                     (newParameterizedLoop rnd (rotate k (ensureWindingCCW rnd loopB)))
                     (newFaceBuilder hA hB) of
                Inl e \<Rightarrow> Inl e
              | Inr built \<Rightarrow> Inr \<lparr> faces = getFaces built \<rparr>)"
proof -
  have neA: "ensureWindingCCW rnd loopA \<noteq> []"
    using assms(1) by (simp add: ensureWindingCCW_Nil) auto
  have neB: "ensureWindingCCW rnd loopB \<noteq> []"
    using assms(2) by (simp add: ensureWindingCCW_Nil) auto
  obtain k where k: "k < length (ensureWindingCCW rnd loopB)"
    and al: "alignLoopStarts rnd (ensureWindingCCW rnd loopA) (ensureWindingCCW rnd loopB) =
           Inr (rotate k (ensureWindingCCW rnd loopB))"
    using alignLoopStarts_rotate[OF neA neB] by blast
  have "perimeterWalkAlgorithm rnd loopA hA loopB hB =
             (case walkPerimeters rnd (newParameterizedLoop rnd (ensureWindingCCW rnd loopA))
                     (newParameterizedLoop rnd (rotate k (ensureWindingCCW rnd loopB)))
                     (newFaceBuilder hA hB) of
                Inl e \<Rightarrow> Inl e
              | Inr built \<Rightarrow> Inr \<lparr> faces = getFaces built \<rparr>)"
    using assms by (simp add: perimeterWalkAlgorithm_def al Let_def)
  with al k show ?thesis by (auto simp: ensureWindingCCW_length)
qed

lemma walkPerimeters_faces:
  assumes "0 < count pA" "0 < count pB"
  shows "\<exists>new. walkPerimeters rnd pA pB (newFaceBuilder hA hB) =
                  Inr \<lparr> fb_faces = new, heightA = hA, heightB = hB \<rparr>
           \<and> length new \<le> count pA + count pB
           \<and> max (count pA) (count pB) \<le> length new
           \<and> (\<forall>f \<in> set new. length (face_vertices f) = 4)"
  using walk_loop_faces[OF assms, where rnd = rnd and iA = 0 and iB = 0 and fb = "newFaceBuilder hA hB"]
  by (simp add: walkPerimeters_def newFaceBuilder_def)

lemma perimeterWalkAlgorithm_faces:
  assumes "3 \<le> length loopA" "3 \<le> length loopB"
  shows "\<exists>r. perimeterWalkAlgorithm rnd loopA hA loopB hB = Inr r
           \<and> length (faces r) \<le> length loopA + length loopB
           \<and> max (length loopA) (length loopB) \<le> length (faces r)
           \<and> (\<forall>f \<in> set (faces r). length (face_vertices f) = 4)"
proof -
  obtain k where
    pw: "perimeterWalkAlgorithm rnd loopA hA loopB hB =
             (case walkPerimeters rnd (newParameterizedLoop rnd (ensureWindingCCW rnd loopA))
                     (newParameterizedLoop rnd (rotate k (ensureWindingCCW rnd loopB)))
                     (newFaceBuilder hA hB) of
                Inl e \<Rightarrow> Inl e
              | Inr built \<Rightarrow> Inr \<lparr> faces = getFaces built \<rparr>)"
    using perimeterWalkAlgorithm_walk[OF assms] by blast
  let ?pA = "newParameterizedLoop rnd (ensureWindingCCW rnd loopA)"
  let ?pB = "newParameterizedLoop rnd (rotate k (ensureWindingCCW rnd loopB))"
  have cA: "count ?pA = length loopA"
    by (simp add: count_newParameterizedLoop ensureWindingCCW_length)
  have cB: "count ?pB = length loopB"
    by (simp add: count_newParameterizedLoop ensureWindingCCW_length)
  have "0 < count ?pA" "0 < count ?pB"
    using assms cA cB by auto
  from walkPerimeters_faces[OF this, where rnd = rnd and hA = hA and hB = hB] obtain new where
    w: "walkPerimeters rnd ?pA ?pB (newFaceBuilder hA hB) =
          Inr \<lparr> fb_faces = new, heightA = hA, heightB = hB \<rparr>"
    and b: "length new \<le> count ?pA + count ?pB" "max (count ?pA) (count ?pB) \<le> length new"
           "\<forall>f \<in> set new. length (face_vertices f) = 4"
    by blast
  have "perimeterWalkAlgorithm rnd loopA hA loopB hB = Inr \<lparr> faces = new \<rparr>"
    by (simp add: pw w getFaces_def)
  with b cA cB show ?thesis by simp
qed

lemma perimeterWalkAlgorithm_total:
  "\<exists>r. perimeterWalkAlgorithm rnd loopA hA loopB hB = Inr r"
proof (cases "length loopA < 3 \<or> length loopB < 3")
  case True
  then show ?thesis by (simp add: perimeterWalkAlgorithm_def)
next
  case False
  then have "3 \<le> length loopA" "3 \<le> length loopB" by simp_all
  from perimeterWalkAlgorithm_faces[OF this, where rnd = rnd and hA = hA and hB = hB]
  show ?thesis by blast
qed

lemma buildSegmentsFrom_shape:
  assumes "buildSegmentsFrom planes algorithm i segs = Inr model" "i \<le> length planes - 1"
  shows "map bottomPlane (segments model) =
           map bottomPlane segs @ map (\<lambda>j. planes ! j) [i..<length planes - 1]
       \<and> map topPlane (segments model) =
           map topPlane segs @ map (\<lambda>j. planes ! (j + 1)) [i..<length planes - 1]"
  using assms
proof (induction planes algorithm i segs rule: buildSegmentsFrom.induct)
  case (1 planes algorithm i segs)
  show ?case
  proof (cases "i < length planes - 1")
    case False
    then have "model = \<lparr> segments = segs \<rparr>"
      using "1.prems"(1) by (subst (asm) buildSegmentsFrom.simps) simp
    with False "1.prems"(2) show ?thesis by simp
  next
    case True
    let ?bottom = "planes ! i" and ?top = "planes ! (i + 1)"
    obtain result where
      r: "algorithm (getVertices ?bottom) (getHeight ?bottom) (getVertices ?top) (getHeight ?top)
            = Inr result"
      using True "1.prems"(1)
      by (subst (asm) buildSegmentsFrom.simps) (auto simp: Let_def split: sum.splits)
    let ?seg = "\<lparr> bottomPlane = ?bottom, topPlane = ?top, seg_faces = faces result \<rparr>"
    have rec: "buildSegmentsFrom planes algorithm (i + 1) (segs @ [?seg]) = Inr model"
      using True "1.prems"(1) r
      by (subst (asm) buildSegmentsFrom.simps) (simp add: Let_def)
    have le: "i + 1 \<le> length planes - 1" using True by simp
    have u: "[i..<length planes - 1] = i # [i + 1..<length planes - 1]"
      using True by (simp add: upt_conv_Cons)
    from "1.IH"[OF True refl refl r rec le] show ?thesis
      unfolding u by simp
  qed
qed

lemma buildSegmentsFrom_total:
  assumes "\<forall>a h b h'. \<exists>r. algorithm a h b h' = Inr r"
  shows "\<exists>model. buildSegmentsFrom planes algorithm i segs = Inr model"
  using assms
proof (induction planes algorithm i segs rule: buildSegmentsFrom.induct)
  case (1 planes algorithm i segs)
  show ?case
  proof (cases "i < length planes - 1")
    case False
    then show ?thesis by (subst buildSegmentsFrom.simps) simp
  next
    case True
    let ?bottom = "planes ! i" and ?top = "planes ! (i + 1)"
    obtain result where
      r: "algorithm (getVertices ?bottom) (getHeight ?bottom) (getVertices ?top) (getHeight ?top)
            = Inr result"
      using "1.prems" by blast
    from "1.IH"[OF True refl refl r "1.prems"] obtain model where
      "buildSegmentsFrom planes algorithm (i + 1)
         (segs @ [\<lparr> bottomPlane = ?bottom, topPlane = ?top, seg_faces = faces result \<rparr>]) = Inr model"
      by blast
    then show ?thesis
      using True r by (subst buildSegmentsFrom.simps) (simp add: Let_def)
  qed
qed

lemma map_nth_butlast: "map ((!) xs) [0..<length xs - Suc 0] = butlast xs"
  by (rule nth_equalityI) (simp_all add: nth_butlast)

lemma map_nth_tl: "map (\<lambda>j. xs ! Suc j) [0..<length xs - Suc 0] = tl xs"
  by (rule nth_equalityI) (simp_all add: nth_tl)

lemma buildSegments_planes:
  assumes "buildSegments planes algorithm = Inr model"
  shows "map bottomPlane (segments model) = butlast planes
       \<and> map topPlane (segments model) = tl planes"
  using buildSegmentsFrom_shape[of planes algorithm 0 "[]" model] assms
  by (simp add: buildSegments_def map_nth_butlast map_nth_tl)

lemma getPlanes_built:
  assumes "buildSegments planes algorithm = Inr model" "2 \<le> length planes"
  shows "getPlanes model = planes"
proof -
  have b: "map bottomPlane (segments model) = butlast planes"
    and t: "map topPlane (segments model) = tl planes"
    using buildSegments_planes[OF assms(1)] by blast+
  have len: "length (segments model) = length planes - 1"
    using arg_cong[OF b, of length] by simp
  then have ne: "segments model \<noteq> []" using assms(2) by auto
  have "bottomPlane (segments model ! 0) = butlast planes ! 0"
    using b ne by (metis length_greater_0_conv nth_map)
  also have "\<dots> = planes ! 0"
    using assms(2) by (simp add: nth_butlast)
  also have "\<dots> = hd planes"
    using assms(2) by (cases planes) simp_all
  finally have h: "bottomPlane (segments model ! 0) = hd planes" .
  have "planes \<noteq> []" using assms(2) by auto
  then show ?thesis
    using ne h t by (simp add: getPlanes_def)
qed

lemma sortPlanes_sample:
  "sortPlanes [planeUpper, planeGround, planeUpperTwin] = [planeGround, planeUpper, planeUpperTwin]"
  by (simp add: sortPlanes_def planeUpper_def planeGround_def planeUpperTwin_def)

lemma buildSegments_sample:
  "buildSegments [planeGround, planeUpper, planeUpperTwin] (perimeterWalkAlgorithm rnd) =
     Inr \<lparr> segments =
             [\<lparr> bottomPlane = planeGround, topPlane = planeUpper, seg_faces = [] \<rparr>,
              \<lparr> bottomPlane = planeUpper, topPlane = planeUpperTwin, seg_faces = [] \<rparr>] \<rparr>"
  by (simp add: buildSegments_def buildSegmentsFrom.simps perimeterWalkAlgorithm_def Let_def
        planeUpper_def planeGround_def planeUpperTwin_def)

section \<open>Rounding and parameters: auxiliary facts\<close>

lemma rounding_exact: "rounding exact"
  by (simp add: rounding_def exact_def)

lemma rounding_mono: "rounding rnd \<Longrightarrow> x \<le> y \<Longrightarrow> rnd x \<le> rnd y"
  by (simp add: rounding_def)

lemma rounding_idem: "rounding rnd \<Longrightarrow> rnd (rnd x) = rnd x"
  by (simp add: rounding_def)

lemma rounding_0: "rounding rnd \<Longrightarrow> rnd 0 = 0"
  by (simp add: rounding_def)

lemma rounding_1: "rounding rnd \<Longrightarrow> rnd 1 = 1"
  by (simp add: rounding_def)

lemma jadd_Num:
  assumes "jadd rnd x y = Num t"
  shows "\<exists>a b. x = Num a \<and> y = Num b \<and> t = rnd (a + b)"
  using assms by (cases x; cases y) (simp_all add: fin_def split: if_splits)

lemma jsqrt_Num:
  assumes "rounding rnd" "jsqrt rnd x = Num r"
  shows "0 \<le> r"
proof (cases x)
  case (Num a)
  with assms(2) have a: "0 \<le> a" and r: "r = rnd (sqrt a)"
    by (simp_all split: if_splits)
  have "rnd 0 \<le> rnd (sqrt a)"
    using a by (intro rounding_mono[OF assms(1)]) simp
  then show ?thesis using r rounding_0[OF assms(1)] by simp
qed (insert assms(2), simp_all)

lemma distanceTo_Num:
  assumes "rounding rnd" "distanceTo rnd p q = Num r"
  shows "0 \<le> r"
  using assms(2) jsqrt_Num[OF assms(1)] by (simp add: distanceTo_def Let_def)

lemma edgeStep_inv:
  assumes "rounding rnd" "distancesInv rnd st"
  shows "distancesInv rnd (edgeStep rnd vs i st)"
  unfolding distancesInv_def
proof (intro allI impI)
  fix t
  let ?e = "distanceTo rnd (vs ! i) (vs ! ((i + 1) mod length vs))"
  assume tot: "snd (edgeStep rnd vs i st) = Num t"
  then have "jadd rnd (snd st) ?e = Num t"
    by (simp add: edgeStep_def Let_def)
  then obtain s r where s: "snd st = Num s" and e: "?e = Num r" and t: "t = rnd (s + r)"
    using jadd_Num by blast
  have r: "0 \<le> r" using distanceTo_Num[OF assms(1) e] .
  from assms(2) s obtain ds where
    inv: "rnd s = s" "0 \<le> s" "fst st = map Num ds" "sorted ds" "\<forall>d \<in> set ds. 0 \<le> d \<and> d \<le> s"
    unfolding distancesInv_def by blast
  have "rnd s \<le> rnd (s + r)"
    using r by (intro rounding_mono[OF assms(1)]) simp
  then have st: "s \<le> t" using inv(1) t by simp
  have fx: "rnd t = t" using t rounding_idem[OF assms(1)] by simp
  have t0: "0 \<le> t" using st inv(2) by simp
  have b: "\<forall>d \<in> set ds. 0 \<le> d \<and> d \<le> t" using inv(5) st by auto
  show "rnd t = t \<and> 0 \<le> t
      \<and> (\<exists>ds. fst (edgeStep rnd vs i st) = map Num ds \<and> sorted ds
               \<and> (\<forall>d \<in> set ds. 0 \<le> d \<and> d \<le> t))"
  proof (cases "i < length vs - 1")
    case True
    then have "fst (edgeStep rnd vs i st) = fst st @ [snd (edgeStep rnd vs i st)]"
      by (simp add: edgeStep_def Let_def)
    then have "fst (edgeStep rnd vs i st) = map Num (ds @ [t])"
      using inv(3) tot by simp
    moreover have "sorted (ds @ [t])" using inv(4) b by (simp add: sorted_append)
    moreover have "\<forall>d \<in> set (ds @ [t]). 0 \<le> d \<and> d \<le> t" using b t0 by simp
    ultimately show ?thesis using fx t0 by blast
  next
    case False
    then have "fst (edgeStep rnd vs i st) = map Num ds"
      using inv(3) by (simp add: edgeStep_def Let_def)
    with inv(4) b fx t0 show ?thesis by blast
  qed
qed

lemma fold_edgeStep_inv:
  "rounding rnd \<Longrightarrow> distancesInv rnd st \<Longrightarrow> distancesInv rnd (fold (edgeStep rnd vs) js st)"
  by (induction js arbitrary: st) (simp_all add: edgeStep_inv)

lemma cumulativeDistances_inv:
  "rounding rnd \<Longrightarrow> distancesInv rnd (cumulativeDistances rnd vs)"
  unfolding cumulativeDistances_def
  by (rule fold_edgeStep_inv) (simp_all add: distancesInv_def rounding_0 exI[of _ "[0]"])

lemma fold_edgeStep_length:
  "length (fst (fold (edgeStep rnd vs) js st)) =
     length (fst st) + length (filter (\<lambda>i. i < length vs - 1) js)"
  by (induction js arbitrary: st) (simp_all add: edgeStep_def Let_def)

lemma fold_edgeStep_prefix:
  "\<exists>xs. fst (fold (edgeStep rnd vs) js st) = fst st @ xs"
proof (induction js arbitrary: st)
  case Nil
  show ?case by simp
next
  case (Cons j js)
  obtain xs where "fst (fold (edgeStep rnd vs) js (edgeStep rnd vs j st)) =
      fst (edgeStep rnd vs j st) @ xs"
    using Cons by blast
  moreover have "\<exists>ys. fst (edgeStep rnd vs j st) = fst st @ ys"
    by (simp add: edgeStep_def Let_def)
  ultimately show ?case by auto
qed

lemma cumulativeDistances_head:
  "\<exists>xs. fst (cumulativeDistances rnd vs) = Num 0 # xs"
  using fold_edgeStep_prefix[of rnd vs "[0..<length vs]" "([Num 0], Num 0)"]
  by (simp add: cumulativeDistances_def)

lemma filter_upt_less: "length (filter (\<lambda>i. i < m) [0..<n]) = min m n"
  by (induction n) auto

lemma cumulativeDistances_length:
  "length (fst (cumulativeDistances rnd vs)) = (if vs = [] then 1 else length vs)"
  by (cases vs) (simp_all add: cumulativeDistances_def fold_edgeStep_length filter_upt_less
        del: upt_Suc)

lemma params_length:
  "length (params (newParameterizedLoop rnd vs)) = (if vs = [] then 1 else length vs)"
  using cumulativeDistances_length[of rnd "ensureWindingCCW rnd vs"]
  by (simp add: newParameterizedLoop_def Let_def ensureWindingCCW_Nil ensureWindingCCW_length)

lemma fin_unit:
  assumes "rounding rnd" "0 \<le> x" "x \<le> 1"
  shows "fin rnd x = Num (rnd x) \<and> 0 \<le> rnd x \<and> rnd x \<le> 1"
proof -
  have "rnd 0 \<le> rnd x" "rnd x \<le> rnd 1"
    using assms(2,3) by (simp_all add: rounding_mono[OF assms(1)])
  then have b: "0 \<le> rnd x" "rnd x \<le> 1"
    using rounding_0[OF assms(1)] rounding_1[OF assms(1)] by simp_all
  then show ?thesis using MAX_VALUE_bounds(1) by (simp add: fin_def)
qed

lemma params_finite_total:
  assumes "rounding rnd" "totalLength (newParameterizedLoop rnd vs) = Num t"
  shows "\<exists>ps. params (newParameterizedLoop rnd vs) = map Num ps \<and> sorted ps
              \<and> (\<forall>p \<in> set ps. 0 \<le> p \<and> p \<le> 1)"
proof -
  define dt where "dt = cumulativeDistances rnd (ensureWindingCCW rnd vs)"
  have tot: "snd dt = Num t"
    using assms(2) by (simp add: newParameterizedLoop_def Let_def dt_def)
  have p: "params (newParameterizedLoop rnd vs) =
             map (\<lambda>d. if jlt (Num 0) (Num t) then jdiv rnd d (Num t) else Num 0) (fst dt)"
    using tot by (simp add: newParameterizedLoop_def Let_def dt_def)
  have "distancesInv rnd dt"
    unfolding dt_def by (rule cumulativeDistances_inv[OF assms(1)])
  with tot obtain ds where
    inv: "0 \<le> t" "fst dt = map Num ds" "sorted ds" "\<forall>d \<in> set ds. 0 \<le> d \<and> d \<le> t"
    unfolding distancesInv_def by blast
  show ?thesis
  proof (cases "0 < t")
    case True
    have q: "jdiv rnd (Num d) (Num t) = Num (rnd (d / t)) \<and> 0 \<le> rnd (d / t) \<and> rnd (d / t) \<le> 1"
      if "d \<in> set ds" for d
    proof -
      have "0 \<le> d / t" "d / t \<le> 1" using inv(4) that True by simp_all
      from fin_unit[OF assms(1) this] show ?thesis using True by simp
    qed
    have "params (newParameterizedLoop rnd vs) = map (\<lambda>d. jdiv rnd (Num d) (Num t)) ds"
      unfolding p inv(2) using True by (simp add: comp_def)
    also have "\<dots> = map (\<lambda>d. Num (rnd (d / t))) ds"
    proof (rule map_cong[OF refl])
      fix d assume "d \<in> set ds"
      from q[OF this] show "jdiv rnd (Num d) (Num t) = Num (rnd (d / t))" by blast
    qed
    finally have 1: "params (newParameterizedLoop rnd vs) = map Num (map (\<lambda>d. rnd (d / t)) ds)"
      by (simp add: comp_def)
    have m: "rnd (a / t) \<le> rnd (b / t)" if "a \<le> b" for a b
      using that True by (intro rounding_mono[OF assms(1)]) (simp add: divide_right_mono)
    have 2: "sorted (map (\<lambda>d. rnd (d / t)) ds)"
      using inv(3) m by (simp add: sorted_wrt_map sorted_wrt_mono_rel[where P="(\<le>)"])
    have 3: "\<forall>p \<in> set (map (\<lambda>d. rnd (d / t)) ds). 0 \<le> p \<and> p \<le> 1"
      using q by auto
    from 1 2 3 show ?thesis by blast
  next
    case False
    then have "params (newParameterizedLoop rnd vs) = map Num (map (\<lambda>d. 0) ds)"
      unfolding p inv(2) by (simp add: comp_def)
    moreover have "sorted (map (\<lambda>d. 0::real) ds)"
      by (induction ds) simp_all
    moreover have "\<forall>p \<in> set (map (\<lambda>d. 0::real) ds). 0 \<le> p \<and> p \<le> 1"
      by simp
    ultimately show ?thesis by blast
  qed
qed

lemma params_head:
  assumes "rounding rnd"
  shows "params (newParameterizedLoop rnd vs) ! 0 = Num 0"
proof -
  define dt where "dt = cumulativeDistances rnd (ensureWindingCCW rnd vs)"
  obtain xs where xs: "fst dt = Num 0 # xs"
    unfolding dt_def using cumulativeDistances_head by blast
  have z: "jdiv rnd (Num 0) y = Num 0" if "jlt (Num 0) y" for y
    using that MAX_VALUE_bounds(1) by (cases y) (simp_all add: fin_def rounding_0[OF assms])
  have "params (newParameterizedLoop rnd vs) ! 0 =
          (if jlt (Num 0) (snd dt) then jdiv rnd (Num 0) (snd dt) else Num 0)"
    by (simp add: newParameterizedLoop_def Let_def dt_def[symmetric] xs)
  then show ?thesis using z by simp
qed

lemma params_zero_total:
  assumes "\<not> jlt (Num 0) (totalLength (newParameterizedLoop rnd vs))"
  shows "\<forall>p \<in> set (params (newParameterizedLoop rnd vs)). p = Num 0"
  using assms by (simp add: newParameterizedLoop_def Let_def)

section \<open>Sample inputs: overflow, alignment and faces\<close>

lemma huge_bounds: "0 < huge" "2 * huge \<le> MAX_VALUE" "MAX_VALUE < huge * huge"
  by (simp_all add: huge_def MAX_VALUE_def)

lemma fin_exact_huge:
  "fin exact huge = Num huge" "fin exact (- huge) = Num (- huge)"
  "fin exact (2 * huge) = Num (2 * huge)" "fin exact (- (2 * huge)) = Num (- (2 * huge))"
  "fin exact (huge * huge) = PInf" "fin exact (4 * (huge * huge)) = PInf"
proof -
  have "0 \<le> huge * huge" by simp
  then have a: "huge * huge \<le> 4 * (huge * huge)" by linarith
  show "fin exact huge = Num huge" "fin exact (- huge) = Num (- huge)"
    "fin exact (2 * huge) = Num (2 * huge)" "fin exact (- (2 * huge)) = Num (- (2 * huge))"
    using huge_bounds(1,2) by (simp_all add: fin_def exact_def)
  show "fin exact (huge * huge) = PInf"
    using huge_bounds(3) by (simp add: fin_def exact_def)
  have "MAX_VALUE < 4 * (huge * huge)"
    using huge_bounds(3) a by linarith
  then show "fin exact (4 * (huge * huge)) = PInf"
    by (simp add: fin_def exact_def)
qed

lemma distanceTo_huge:
  "distanceTo exact (pt 0 0) (pt huge 0) = PInf"
  "distanceTo exact (pt 0 0) (pt (2 * huge) 0) = PInf"
  "distanceTo exact (pt huge 0) (pt huge huge) = PInf"
  "distanceTo exact (pt huge huge) (pt 0 0) = PInf"
  by (simp_all add: distanceTo_def pt_def jsub_def Let_def fin_exact_huge)

lemma hugeTriangle_ccw: "ensureWindingCCW exact hugeTriangle = hugeTriangle"
  by (simp add: ensureWindingCCW_def signedArea_def shoelaceTerm_def hugeTriangle_def pt_def
        jsub_def fin_exact_huge)

lemma hugeTriangle_params:
  "newParameterizedLoop exact hugeTriangle =
     \<lparr> vertices = hugeTriangle, params = [Num 0, NaN, NaN], totalLength = PInf \<rparr>"
  unfolding newParameterizedLoop_def hugeTriangle_ccw
  by (simp add: cumulativeDistances_def edgeStep_def hugeTriangle_def distanceTo_huge Let_def)

lemma farPair_closest: "findClosestVertexIndex exact [pt 0 0] farPair = Inr 0"
  by (simp add: findClosestVertexIndex_def closestStep_def farPair_def distanceTo_huge Let_def)

lemma farPair_euclidean:
  "euclideanDistance (pt 0 0) (farPair ! 0) = Some (2 * huge)"
  "euclideanDistance (pt 0 0) (farPair ! 1) = Some huge"
  using huge_bounds(1)
  by (simp_all add: euclideanDistance_def farPair_def pt_def power2_eq_square real_sqrt_mult)

lemma distanceTo_diagonal:
  assumes "\<bar>x1 - x2\<bar> \<le> 100" "\<bar>y1 - y2\<bar> \<le> 100"
  shows "distanceTo exact (pt x1 y1) (pt x2 y2) =
           Num (sqrt ((x1 - x2) * (x1 - x2) + (y1 - y2) * (y1 - y2)))"
proof -
  have a: "\<bar>(x1 - x2) * (x1 - x2)\<bar> \<le> 100 * 100"
    unfolding abs_mult using assms(1) by (intro mult_mono) simp_all
  have b: "\<bar>(y1 - y2) * (y1 - y2)\<bar> \<le> 100 * 100"
    unfolding abs_mult using assms(2) by (intro mult_mono) simp_all
  have c: "\<bar>(x1 - x2) * (x1 - x2) + (y1 - y2) * (y1 - y2)\<bar> \<le> 1000000"
    using a b by linarith
  have d: "\<bar>x1 - x2\<bar> \<le> 1000000" "\<bar>y1 - y2\<bar> \<le> 1000000"
    using assms by linarith+
  have e: "\<bar>(x1 - x2) * (x1 - x2)\<bar> \<le> 1000000" "\<bar>(y1 - y2) * (y1 - y2)\<bar> \<le> 1000000"
    using a b by linarith+
  have n: "\<not> (x1 - x2) * (x1 - x2) + (y1 - y2) * (y1 - y2) < 0"
    by (simp add: not_less)
  show ?thesis
    using c d e n by (simp add: distanceTo_def pt_def Let_def exact_def)
qed

lemma jlt_sqrt_0 [simp]: "\<not> jlt (Num (sqrt (a * a + b * b))) (Num 0)"
  by (simp add: not_less)

lemma squareTurned_closest: "findClosestVertexIndex exact square squareTurned = Inr 1"
  by (simp add: findClosestVertexIndex_def closestStep_def square_def squareTurned_def
        distanceTo_diagonal Let_def)



lemma squareTail_align: "alignLoopStarts exact square squareTail = Inr squareTail"
  by (simp add: alignLoopStarts_def findClosestVertexIndex_def closestStep_def rotateArray_def
        square_def squareTail_def distanceTo_diagonal Let_def)


lemma perimeterWalkAlgorithm_sample:
  assumes "3 \<le> length A" "3 \<le> length B"
    and "ensureWindingCCW exact A = A" "ensureWindingCCW exact B = B"
    and "alignLoopStarts exact A B = Inr B"
  shows "perimeterWalkAlgorithm exact A hA B hB =
           (case traceFaces exact (newParameterizedLoop exact A) (newParameterizedLoop exact B)
                   (newFaceBuilder hA hB)
                   (walkTrace exact (newParameterizedLoop exact A) (newParameterizedLoop exact B) 0 0) of
              Inl e \<Rightarrow> Inl e
            | Inr built \<Rightarrow> Inr \<lparr> faces = getFaces built \<rparr>)"
  using assms by (simp add: perimeterWalkAlgorithm_def walkPerimeters_def walk_loop_trace Let_def)


lemma squareTail_algorithm:
  "perimeterWalkAlgorithm exact square 0 squareTail 3 = Inr \<lparr> faces =
     [\<lparr> face_vertices = [pt3 0 0 0, pt3 2 0 0, pt3 2 0 3, pt3 0 0 3] \<rparr>,
      \<lparr> face_vertices = [pt3 2 0 0, pt3 2 2 0, pt3 2 2 3, pt3 2 0 3] \<rparr>,
      \<lparr> face_vertices = [pt3 2 2 0, pt3 0 2 0, pt3 0 2 3, pt3 2 2 3] \<rparr>,
      \<lparr> face_vertices = [pt3 0 2 0, pt3 0 0 0, pt3 0 (1 / 268435456) 3, pt3 0 2 3] \<rparr>,
      \<lparr> face_vertices = [pt3 0 0 0, pt3 0 (1 / 536870912) 0,
                          pt3 0 (1 / 536870912) 3, pt3 0 (1 / 268435456) 3] \<rparr>,
      \<lparr> face_vertices = [pt3 0 0 0, pt3 0 0 0, pt3 0 0 3, pt3 0 (1 / 536870912) 3] \<rparr>] \<rparr>"
proof -
  have l: "3 \<le> length square" "3 \<le> length squareTail" by (simp_all add: square_def squareTail_def)
  show ?thesis
    apply (subst perimeterWalkAlgorithm_sample[OF l square_ccw squareTail_ccw squareTail_align])
    apply (subst squareTail_trace)
    unfolding square_params squareTail_params
    by (simp add: square_def squareTail_def callAddQuad_def cornerPoint_def defined_def vertex_def
          interpolate_def param_def
          count_def addQuad_def toPoint3D_A_def toPoint3D_B_def newFaceBuilder_def getFaces_def
          pt_def pt3_def Let_def)
qed


lemma squareTail_step:
  "walk_step exact (newParameterizedLoop exact square) (newParameterizedLoop exact squareTail) 4 4 fb =
     Inr (4, 5, addQuad fb (pt 0 0) (pt 0 (1 / 536870912)) (pt 0 (1 / 268435456))
                  (pt 0 (1 / 536870912)))"
  unfolding square_params squareTail_params
  by (simp add: walk_step_def square_def squareTail_def callAddQuad_def defined_def vertex_def
        interpolate_def param_def count_def pt_def Let_def)

lemma squareClosed_step:
  "walk_step exact (newParameterizedLoop exact square) (newParameterizedLoop exact squareClosed) 4 4 fb =
     Inr (4, 5, addQuad fb (pt 0 0) (pt 0 0) (pt 0 0) (pt 0 0))"
  unfolding square_params squareClosed_params
  by (simp add: walk_step_def square_def squareClosed_def callAddQuad_def defined_def vertex_def
        interpolate_def param_def count_def pt_def Let_def)



lemma squareMid_corner:
  "cornerPoint exact (newParameterizedLoop exact square) (Interp 2 (Num (5/8))) = Inr (pt 1 2)"
  unfolding square_params
  by (simp add: cornerPoint_def interpolate_def vertex_def param_def count_def square_def
        pt_def Let_def)

section \<open>Faces and recorded quads\<close>




section \<open>Claims about the face builder and the degenerate input\<close>

text \<open>
  Claim C7. A call \<open>addQuad(a0, a1, b0, b1)\<close> on a builder with heights \<open>heightA\<close> and
  \<open>heightB\<close> appends exactly one face to the faces already there, and the vertices of
  that face are, in this order, \<open>a0\<close> and \<open>a1\<close> lifted to \<open>heightA\<close>, then \<open>b1\<close> and
  \<open>b0\<close> lifted to \<open>heightB\<close>; the heights are left as they were.
\<close>

theorem addQuad_appends_one_face:
  "getFaces (addQuad fb a0 a1 b0 b1) =
     getFaces fb @
       [\<lparr> face_vertices = [Vector3 (vx a0) (vy a0) (heightA fb),
                           Vector3 (vx a1) (vy a1) (heightA fb),
                           Vector3 (vx b1) (vy b1) (heightB fb),
                           Vector3 (vx b0) (vy b0) (heightB fb)] \<rparr>]
   \<and> length (getFaces (addQuad fb a0 a1 b0 b1)) = length (getFaces fb) + 1
   \<and> heightA (addQuad fb a0 a1 b0 b1) = heightA fb
   \<and> heightB (addQuad fb a0 a1 b0 b1) = heightB fb"
  by (simp add: addQuad_def getFaces_def toPoint3D_A_def toPoint3D_B_def)

text \<open>
  Claim C4. If either input loop has fewer than 3 vertices, \<open>perimeterWalkAlgorithm\<close>
  returns (it does not throw) a result whose face list is empty, whatever the rounding
  of the arithmetic.
\<close>

theorem perimeterWalkAlgorithm_degenerate:
  assumes "length loopA < 3 \<or> length loopB < 3"
  shows "perimeterWalkAlgorithm rnd loopA hA loopB hB = Inr \<lparr> faces = [] \<rparr>"
  using assms by (simp add: perimeterWalkAlgorithm_def)

theorem perimeterWalkAlgorithm_degenerate_witness:
  "perimeterWalkAlgorithm exact [pt 0 0, pt 1 0] 0 [pt 0 0, pt 2 0, pt 2 2, pt 0 2] 3 =
     Inr \<lparr> faces = [] \<rparr>"
  using perimeterWalkAlgorithm_degenerate
          [where loopA = "[pt 0 0, pt 1 0]" and loopB = "[pt 0 0, pt 2 0, pt 2 2, pt 0 2]"
             and rnd = exact and hA = 0 and hB = 3]
  by simp

section \<open>Claims about the walk\<close>

text \<open>
  Claim C1. For two loops with at least 3 vertices each the walk terminates and returns,
  whatever the rounding of the arithmetic: \<open>perimeterWalkAlgorithm\<close> yields a result
  (no exception), and so does \<open>walkPerimeters\<close> on the parameterized loops; the result
  has at most \<open>nA + nB\<close> faces, and each face has exactly 4 vertices. Every iteration
  of the loop body returns a next state in which \<open>iA\<close>, \<open>iB\<close> or both are one larger
  and neither is smaller, and the loop runs exactly while \<open>iA < nA\<close> or \<open>iB < nB\<close>.
\<close>

theorem walkPerimeters_terminates_bounded:
  assumes "3 \<le> length loopA" "3 \<le> length loopB"
  shows "(\<exists>r. perimeterWalkAlgorithm rnd loopA hA loopB hB = Inr r
            \<and> length (faces r) \<le> length loopA + length loopB
            \<and> (\<forall>f \<in> set (faces r). length (face_vertices f) = 4))
       \<and> (\<exists>built. walkPerimeters rnd (newParameterizedLoop rnd loopA) (newParameterizedLoop rnd loopB)
                      (newFaceBuilder hA hB) = Inr built
            \<and> length (getFaces built) \<le> length loopA + length loopB
            \<and> (\<forall>f \<in> set (getFaces built). length (face_vertices f) = 4))
       \<and> (\<forall>iA iB fb. \<exists>iA' iB' fb'.
              walk_step rnd (newParameterizedLoop rnd loopA) (newParameterizedLoop rnd loopB) iA iB fb =
                Inr (iA', iB', fb')
            \<and> (iA' = iA + 1 \<and> iB' = iB \<or> iA' = iA \<and> iB' = iB + 1 \<or> iA' = iA + 1 \<and> iB' = iB + 1))
       \<and> (\<forall>iA iB fb.
              walk_loop rnd (newParameterizedLoop rnd loopA) (newParameterizedLoop rnd loopB) iA iB fb =
              (if iA < length loopA \<or> iB < length loopB
               then (case walk_step rnd (newParameterizedLoop rnd loopA) (newParameterizedLoop rnd loopB)
                            iA iB fb of
                       Inl e \<Rightarrow> Inl e
                     | Inr (iA', iB', fb') \<Rightarrow>
                         walk_loop rnd (newParameterizedLoop rnd loopA) (newParameterizedLoop rnd loopB)
                           iA' iB' fb')
               else Inr fb))"
proof -
  let ?pA = "newParameterizedLoop rnd loopA" and ?pB = "newParameterizedLoop rnd loopB"
  have cA: "count ?pA = length loopA" and cB: "count ?pB = length loopB"
    by (simp_all add: count_newParameterizedLoop)
  have pos: "0 < count ?pA" "0 < count ?pB"
    using assms cA cB by auto
  have alg: "\<exists>r. perimeterWalkAlgorithm rnd loopA hA loopB hB = Inr r
            \<and> length (faces r) \<le> length loopA + length loopB
            \<and> (\<forall>f \<in> set (faces r). length (face_vertices f) = 4)"
    using perimeterWalkAlgorithm_faces[OF assms, where rnd = rnd and hA = hA and hB = hB] by blast
  have walk: "\<exists>built. walkPerimeters rnd ?pA ?pB (newFaceBuilder hA hB) = Inr built
            \<and> length (getFaces built) \<le> length loopA + length loopB
            \<and> (\<forall>f \<in> set (getFaces built). length (face_vertices f) = 4)"
  proof -
    obtain new where
      w: "walkPerimeters rnd ?pA ?pB (newFaceBuilder hA hB) =
            Inr \<lparr> fb_faces = new, heightA = hA, heightB = hB \<rparr>"
      and b: "length new \<le> count ?pA + count ?pB" "\<forall>f \<in> set new. length (face_vertices f) = 4"
      using walkPerimeters_faces[OF pos, where rnd = rnd and hA = hA and hB = hB] by blast
    show ?thesis
      using w b cA cB by (simp add: getFaces_def)
  qed
  have step: "\<exists>iA' iB' fb'. walk_step rnd ?pA ?pB iA iB fb = Inr (iA', iB', fb')
            \<and> (iA' = iA + 1 \<and> iB' = iB \<or> iA' = iA \<and> iB' = iB + 1 \<or> iA' = iA + 1 \<and> iB' = iB + 1)"
    for iA iB fb
  proof -
    obtain a0 a1 b0 b1 dA dB where
      st: "walk_step rnd ?pA ?pB iA iB fb = Inr (iA + dA, iB + dB, addQuad fb a0 a1 b0 b1)"
      and d: "dA \<le> 1" "dB \<le> 1" "0 < dA + dB"
      using walk_step_shape[OF pos, where rnd = rnd and iA = iA and iB = iB and fb = fb] by blast
    from d have "dA = 1 \<and> dB = 0 \<or> dA = 0 \<and> dB = 1 \<or> dA = 1 \<and> dB = 1"
      by arith
    with st show ?thesis by auto
  qed
  have loop: "walk_loop rnd ?pA ?pB iA iB fb =
              (if iA < length loopA \<or> iB < length loopB
               then (case walk_step rnd ?pA ?pB iA iB fb of
                       Inl e \<Rightarrow> Inl e
                     | Inr (iA', iB', fb') \<Rightarrow> walk_loop rnd ?pA ?pB iA' iB' fb')
               else Inr fb)" for iA iB fb
    by (subst walk_loop.simps) (simp add: cA cB)
  from alg walk step loop show ?thesis by blast
qed

theorem walkPerimeters_terminates_bounded_witness:
  "(\<exists>r. perimeterWalkAlgorithm exact square 0 square 3 = Inr r
            \<and> length (faces r) \<le> 8
            \<and> (\<forall>f \<in> set (faces r). length (face_vertices f) = 4))
   \<and> (\<exists>built. walkPerimeters exact (newParameterizedLoop exact square) (newParameterizedLoop exact square)
                      (newFaceBuilder 0 3) = Inr built
            \<and> length (getFaces built) \<le> 8)
   \<and> (\<exists>iA' iB' fb'.
         walk_step exact (newParameterizedLoop exact square) (newParameterizedLoop exact square) 0 0
           (newFaceBuilder 0 3) = Inr (iA', iB', fb')
         \<and> 0 < iA' + iB')"
proof -
  have l: "3 \<le> length square" "length square = 4" by (simp_all add: square_def)
  note t = walkPerimeters_terminates_bounded[OF l(1) l(1), where rnd = exact and hA = 0 and hB = 3]
  from t have a: "\<exists>r. perimeterWalkAlgorithm exact square 0 square 3 = Inr r
            \<and> length (faces r) \<le> 8
            \<and> (\<forall>f \<in> set (faces r). length (face_vertices f) = 4)"
    unfolding l(2) by simp
  from t have b: "\<exists>built. walkPerimeters exact (newParameterizedLoop exact square)
                      (newParameterizedLoop exact square) (newFaceBuilder 0 3) = Inr built
            \<and> length (getFaces built) \<le> 8"
    unfolding l(2) by auto
  from t have "\<forall>iA iB fb. \<exists>iA' iB' fb'.
              walk_step exact (newParameterizedLoop exact square) (newParameterizedLoop exact square)
                iA iB fb = Inr (iA', iB', fb')
            \<and> (iA' = iA + 1 \<and> iB' = iB \<or> iA' = iA \<and> iB' = iB + 1 \<or> iA' = iA + 1 \<and> iB' = iB + 1)"
    by blast
  then obtain iA' iB' fb' where
     "walk_step exact (newParameterizedLoop exact square) (newParameterizedLoop exact square) 0 0
           (newFaceBuilder 0 3) = Inr (iA', iB', fb')"
     "iA' = 0 + 1 \<and> iB' = 0 \<or> iA' = 0 \<and> iB' = 0 + 1 \<or> iA' = 0 + 1 \<and> iB' = 0 + 1"
    by blast
  then have c: "\<exists>iA' iB' fb'.
         walk_step exact (newParameterizedLoop exact square) (newParameterizedLoop exact square) 0 0
           (newFaceBuilder 0 3) = Inr (iA', iB', fb')
         \<and> 0 < iA' + iB'"
    by auto
  from a b c show ?thesis by blast
qed

text \<open>
  Claim C10. For two loops with at least 3 vertices each, \<open>perimeterWalkAlgorithm\<close>
  returns a result with at least \<open>max nA nB\<close> faces, whatever the rounding of the
  arithmetic; in particular the face list is not empty.
\<close>

theorem perimeterWalkAlgorithm_at_least_max_faces:
  assumes "3 \<le> length loopA" "3 \<le> length loopB"
  shows "\<exists>r. perimeterWalkAlgorithm rnd loopA hA loopB hB = Inr r
           \<and> max (length loopA) (length loopB) \<le> length (faces r)
           \<and> faces r \<noteq> []"
proof -
  obtain r where r: "perimeterWalkAlgorithm rnd loopA hA loopB hB = Inr r"
    and m: "max (length loopA) (length loopB) \<le> length (faces r)"
    using perimeterWalkAlgorithm_faces[OF assms, where rnd = rnd and hA = hA and hB = hB] by blast
  from m assms have "faces r \<noteq> []" by auto
  with r m show ?thesis by blast
qed

theorem perimeterWalkAlgorithm_at_least_max_faces_witness:
  "\<exists>r. perimeterWalkAlgorithm exact square 0 square 3 = Inr r
           \<and> 4 \<le> length (faces r) \<and> faces r \<noteq> []"
proof -
  have l: "3 \<le> length square" "length square = 4" by (simp_all add: square_def)
  show ?thesis
    using perimeterWalkAlgorithm_at_least_max_faces[OF l(1) l(1), where rnd = exact and hA = 0 and hB = 3]
    unfolding l(2) by simp
qed

text \<open>
  Claim C3, as stated, fails: the two corners on A's side need not coincide, and
  neither need be A's last listed vertex. For the square of side 2 against the same
  square with two more vertices just before its start, the walk reaches the state
  \<open>iA = 4 = nA\<close>, \<open>iB = 4\<close> (the fifth recorded quad), and the quad emitted there has
  \<open>a0 = (0, 0)\<close>, which is A's vertex 0, and \<open>a1 = (0, 2^-29)\<close>, while A's last listed
  vertex is \<open>(0, 2)\<close>. It is the fifth face of the result of \<open>perimeterWalkAlgorithm\<close>.
\<close>

theorem exhausted_corners_differ:
  "walkTrace exact (newParameterizedLoop exact square) (newParameterizedLoop exact squareTail) 0 0 ! 4 =
     \<lparr> ca0 = Exact 0, ca1 = Interp 3 (Num (1 - 1 / 4294967296)), cb0 = Exact 4, cb1 = Exact 5,
       advA = False, advB = True \<rparr>
   \<and> walk_step exact (newParameterizedLoop exact square) (newParameterizedLoop exact squareTail) 4 4
       (newFaceBuilder 0 3) =
     Inr (4, 5, addQuad (newFaceBuilder 0 3) (pt 0 0) (pt 0 (1 / 536870912)) (pt 0 (1 / 268435456))
                  (pt 0 (1 / 536870912)))
   \<and> count (newParameterizedLoop exact square) = 4
   \<and> vertices (newParameterizedLoop exact square) = [pt 0 0, pt 2 0, pt 2 2, pt 0 2]
   \<and> pt 0 (1 / 536870912) \<noteq> pt 0 0
   \<and> pt 0 (1 / 536870912) \<noteq> pt 0 2
   \<and> pt 0 0 \<noteq> pt 0 2
   \<and> (\<exists>r. perimeterWalkAlgorithm exact square 0 squareTail 3 = Inr r
         \<and> faces r ! 4 = \<lparr> face_vertices = [pt3 0 0 0, pt3 0 (1 / 536870912) 0,
                                             pt3 0 (1 / 536870912) 3, pt3 0 (1 / 268435456) 3] \<rparr>)"
proof -
  have c: "count (newParameterizedLoop exact square) = 4"
    by (simp add: count_newParameterizedLoop square_def)
  have v: "vertices (newParameterizedLoop exact square) = [pt 0 0, pt 2 0, pt 2 2, pt 0 2]"
    by (simp add: square_params) (simp add: square_def)
  have n: "pt 0 (1 / 536870912) \<noteq> pt 0 0" "pt 0 (1 / 536870912) \<noteq> pt 0 2" "pt 0 0 \<noteq> pt 0 2"
    by (simp_all add: pt_def)
  have f: "\<exists>r. perimeterWalkAlgorithm exact square 0 squareTail 3 = Inr r
         \<and> faces r ! 4 = \<lparr> face_vertices = [pt3 0 0 0, pt3 0 (1 / 536870912) 0,
                                             pt3 0 (1 / 536870912) 3, pt3 0 (1 / 268435456) 3] \<rparr>"
    by (simp add: squareTail_algorithm)
  from c v n f show ?thesis
    by (simp add: squareTail_trace squareTail_step)
qed

text \<open>
  Claim C3, amended. When loop A is exhausted (\<open>iA \<ge> nA\<close>) and the loop still runs
  (\<open>iB < nB\<close>), the iteration emits one quad and increments \<open>iB\<close> only, whatever the
  rounding of the arithmetic. The quad's corners on B are B's current and next vertex.
  Its corner \<open>a0\<close> is \<open>loopA.vertex(iA)\<close>: with \<open>iA = nA\<close> (the cursors never pass
  their bounds), that is the vertex on which A's walk ended, index \<open>nA\<close>, which wraps to
  the loop's vertex 0, the end of A's final edge. Its corner \<open>a1\<close> is the point computed
  by holding on A's final edge \<open>nA - 1\<close> and evaluating it at B's next parameter; it
  need not coincide with \<open>a0\<close>.
\<close>

theorem walk_step_A_exhausted:
  assumes "0 < count loopA" "count loopA \<le> iA" "iB < count loopB"
  shows "\<exists>a0 a1 b0 b1.
           vertex loopA iA = Some a0
         \<and> interpolate rnd loopA (count loopA - 1) (param loopB (iB + 1)) = Inr a1
         \<and> vertex loopB iB = Some b0
         \<and> vertex loopB (iB + 1) = Some b1
         \<and> walk_step rnd loopA loopB iA iB builder = Inr (iA, iB + 1, addQuad builder a0 a1 b0 b1)
         \<and> getFaces (addQuad builder a0 a1 b0 b1) =
             getFaces builder @
               [\<lparr> face_vertices = [toPoint3D_A builder a0, toPoint3D_A builder a1,
                                   toPoint3D_B builder b1, toPoint3D_B builder b0] \<rparr>]
         \<and> (iA = count loopA \<longrightarrow> a0 = vertices loopA ! 0)"
proof -
  have posB: "0 < count loopB" using assms(3) by simp
  obtain a1 where a1: "interpolate rnd loopA (count loopA - 1) (param loopB (iB + 1)) = Inr a1"
    using interpolate_nonempty[OF assms(1)] by blast
  let ?a0 = "vertices loopA ! (iA mod count loopA)"
  let ?b0 = "vertices loopB ! (iB mod count loopB)"
  let ?b1 = "vertices loopB ! ((iB + 1) mod count loopB)"
  have va: "vertex loopA iA = Some ?a0" by (rule vertex_nonempty[OF assms(1)])
  have vb0: "vertex loopB iB = Some ?b0" by (rule vertex_nonempty[OF posB])
  have vb1: "vertex loopB (iB + 1) = Some ?b1" by (rule vertex_nonempty[OF posB])
  have st: "walk_step rnd loopA loopB iA iB builder =
              Inr (iA, iB + 1, addQuad builder ?a0 a1 ?b0 ?b1)"
    using assms(2) va vb0 vb1 a1 by (simp add: walk_step_def Let_def defined_def callAddQuad_def)
  have fc: "getFaces (addQuad builder ?a0 a1 ?b0 ?b1) =
             getFaces builder @
               [\<lparr> face_vertices = [toPoint3D_A builder ?a0, toPoint3D_A builder a1,
                                   toPoint3D_B builder ?b1, toPoint3D_B builder ?b0] \<rparr>]"
    by (simp add: addQuad_def getFaces_def)
  have e0: "iA = count loopA \<longrightarrow> ?a0 = vertices loopA ! 0" by simp
  from va a1 vb0 vb1 st fc e0 show ?thesis by blast
qed

theorem walk_step_A_exhausted_witness:
  "walk_step exact (newParameterizedLoop exact square) (newParameterizedLoop exact squareClosed) 4 4
     (newFaceBuilder 0 3) =
     Inr (4, 5, addQuad (newFaceBuilder 0 3) (pt 0 0) (pt 0 0) (pt 0 0) (pt 0 0))
   \<and> walkTrace exact (newParameterizedLoop exact square) (newParameterizedLoop exact squareClosed) 0 0 ! 4 =
       \<lparr> ca0 = Exact 0, ca1 = Interp 3 (Num 1), cb0 = Exact 4, cb1 = Exact 0,
         advA = False, advB = True \<rparr>"
proof -
  let ?A = "newParameterizedLoop exact square" and ?B = "newParameterizedLoop exact squareClosed"
  have h: "0 < count ?A" "count ?A \<le> 4" "4 < count ?B"
    by (simp_all add: count_newParameterizedLoop square_def squareClosed_def)
  obtain a0 a1 b0 b1 where
    v: "vertex ?A 4 = Some a0" "interpolate exact ?A (count ?A - 1) (param ?B (4 + 1)) = Inr a1"
       "vertex ?B 4 = Some b0" "vertex ?B (4 + 1) = Some b1"
    and st: "walk_step exact ?A ?B 4 4 (newFaceBuilder 0 3) =
               Inr (4, 4 + 1, addQuad (newFaceBuilder 0 3) a0 a1 b0 b1)"
    using walk_step_A_exhausted[OF h, where rnd = exact and builder = "newFaceBuilder 0 3"] by blast
  have "a0 = pt 0 0"
    using v(1) unfolding square_params by (simp add: vertex_def count_def square_def)
  moreover have "b0 = pt 0 0"
    using v(3) unfolding squareClosed_params by (simp add: vertex_def count_def squareClosed_def)
  moreover have "b1 = pt 0 0"
    using v(4) unfolding squareClosed_params by (simp add: vertex_def count_def squareClosed_def)
  moreover have "a1 = pt 0 0"
    using v(2) unfolding squareClosed_params square_params
    by (simp add: interpolate_def vertex_def count_def param_def square_def squareClosed_def
          pt_def Let_def)
  ultimately show ?thesis using st by (simp add: squareClosed_trace)
qed




section \<open>Claims about the parameterization and the alignment\<close>

text \<open>
  Claim C5, as stated, fails when an edge length overflows: for the triangle with
  vertices \<open>(0, 0)\<close>, \<open>(1e200, 0)\<close>, \<open>(1e200, 1e200)\<close> every squared edge length is
  \<open>Infinity\<close>, so the total length is \<open>Infinity\<close> and the parameters are \<open>0\<close>, \<open>NaN\<close>,
  \<open>NaN\<close>: the parameter of vertex 1 is not less than or equal to that of vertex 2 (no
  comparison with \<open>NaN\<close> holds).
\<close>

theorem parameters_NaN_on_overflow:
  "newParameterizedLoop exact hugeTriangle =
     \<lparr> vertices = hugeTriangle, params = [Num 0, NaN, NaN], totalLength = PInf \<rparr>
   \<and> param (newParameterizedLoop exact hugeTriangle) 1 = NaN
   \<and> param (newParameterizedLoop exact hugeTriangle) 2 = NaN
   \<and> \<not> jle (param (newParameterizedLoop exact hugeTriangle) 1)
            (param (newParameterizedLoop exact hugeTriangle) 2)
   \<and> \<not> jle (param (newParameterizedLoop exact hugeTriangle) 2)
            (param (newParameterizedLoop exact hugeTriangle) 3)
   \<and> rounding exact"
  unfolding hugeTriangle_params
  by (simp add: param_def count_def hugeTriangle_def rounding_exact)

text \<open>
  Claim C5, amended. For every \<open>ParameterizedLoop\<close> (every value the constructor
  builds), with arithmetic rounded by a monotone rounding that leaves its own results,
  0 and 1 unchanged: the stored parameter at index 0 is exactly 0, and \<open>param(0)\<close> is 0
  whenever the loop has a vertex; \<open>param(i)\<close> at \<open>i\<close> equal to the vertex count is
  exactly 1; if the computed total perimeter length is finite (no edge length and no
  running sum has overflowed or is \<open>NaN\<close>), the parameters are finite numbers between 0
  and 1 and are non-decreasing in traversal order, up to and including the wrap
  sentinel; and if the total perimeter length is 0, every stored parameter and every
  vertex's parameter is 0.
\<close>

theorem parameterizedLoop_invariant:
  assumes "rounding rnd"
  shows "params (newParameterizedLoop rnd vs) ! 0 = Num 0
   \<and> (vs \<noteq> [] \<longrightarrow> param (newParameterizedLoop rnd vs) 0 = Num 0)
   \<and> param (newParameterizedLoop rnd vs) (count (newParameterizedLoop rnd vs)) = Num 1
   \<and> (\<forall>t. totalLength (newParameterizedLoop rnd vs) = Num t \<longrightarrow>
          (\<forall>i j. i \<le> j \<and> j \<le> count (newParameterizedLoop rnd vs) \<longrightarrow>
                jle (param (newParameterizedLoop rnd vs) i) (param (newParameterizedLoop rnd vs) j))
        \<and> (\<forall>i < count (newParameterizedLoop rnd vs).
                \<exists>p. param (newParameterizedLoop rnd vs) i = Num p \<and> 0 \<le> p \<and> p \<le> 1))
   \<and> (totalLength (newParameterizedLoop rnd vs) = Num 0 \<longrightarrow>
        (\<forall>p \<in> set (params (newParameterizedLoop rnd vs)). p = Num 0)
      \<and> (\<forall>i < count (newParameterizedLoop rnd vs). param (newParameterizedLoop rnd vs) i = Num 0))"
proof -
  let ?pl = "newParameterizedLoop rnd vs"
  have c: "count ?pl = length vs" by (rule count_newParameterizedLoop)
  have z: "params ?pl ! 0 = Num 0" by (rule params_head[OF assms])
  have len: "vs \<noteq> [] \<Longrightarrow> length (params ?pl) = length vs"
    by (simp add: params_length)
  have p0: "vs \<noteq> [] \<longrightarrow> param ?pl 0 = Num 0"
    using z c by (simp add: param_def)
  have pn: "param ?pl (count ?pl) = Num 1" by (simp add: param_def)
  have fin: "(\<forall>i j. i \<le> j \<and> j \<le> count ?pl \<longrightarrow> jle (param ?pl i) (param ?pl j))
        \<and> (\<forall>i < count ?pl. \<exists>p. param ?pl i = Num p \<and> 0 \<le> p \<and> p \<le> 1)"
    if tot: "totalLength ?pl = Num t" for t
  proof -
    obtain ps where ps: "params ?pl = map Num ps" and s: "sorted ps"
      and r: "\<forall>p \<in> set ps. 0 \<le> p \<and> p \<le> 1"
      using params_finite_total[OF assms tot] by blast
    have lp: "vs \<noteq> [] \<Longrightarrow> length ps = length vs"
      using len ps by (metis length_map)
    have at: "param ?pl i = Num (ps ! i) \<and> 0 \<le> ps ! i \<and> ps ! i \<le> 1" if i: "i < count ?pl" for i
    proof -
      have ne: "vs \<noteq> []" using i c by auto
      have il: "i < length ps" using i c lp[OF ne] by simp
      then have "ps ! i \<in> set ps" by simp
      with r il i ps show ?thesis by (simp add: param_def)
    qed
    have mono: "jle (param ?pl i) (param ?pl j)" if ij: "i \<le> j" and j: "j \<le> count ?pl" for i j
    proof (cases "j < count ?pl")
      case True
      then have ne: "vs \<noteq> []" using c by auto
      have "ps ! i \<le> ps ! j"
        using s ij True c lp[OF ne] by (simp add: sorted_nth_mono)
      then show ?thesis using at[OF True] at[of i] ij True by simp
    next
      case False
      then have pj: "param ?pl j = Num 1" by (simp add: param_def)
      show ?thesis
      proof (cases "i < count ?pl")
        case True
        then show ?thesis using at[OF True] pj by simp
      next
        case False
        then show ?thesis using pj by (simp add: param_def)
      qed
    qed
    from mono at show ?thesis by blast
  qed
  have t0: "\<forall>p \<in> set (params ?pl). p = Num 0" if "totalLength ?pl = Num 0"
    using that by (intro params_zero_total) simp
  have t1: "\<forall>i < count ?pl. param ?pl i = Num 0" if t: "totalLength ?pl = Num 0"
  proof (intro allI impI)
    fix i assume i: "i < count ?pl"
    then have ne: "vs \<noteq> []" using c by auto
    have "params ?pl ! i \<in> set (params ?pl)"
      using i c len[OF ne] by simp
    then show "param ?pl i = Num 0" using t0[OF t] i by (simp add: param_def)
  qed
  from z p0 pn fin t0 t1 show ?thesis by blast
qed

theorem parameterizedLoop_invariant_witness:
  "jle (param (newParameterizedLoop exact squareMid) 2) (param (newParameterizedLoop exact squareMid) 3)
   \<and> jle (param (newParameterizedLoop exact squareMid) 3) (param (newParameterizedLoop exact squareMid) 5)
   \<and> param (newParameterizedLoop exact squareMid) 0 = Num 0
   \<and> param (newParameterizedLoop exact squareMid) 5 = Num 1
   \<and> totalLength (newParameterizedLoop exact squareMid) = Num 8
   \<and> totalLength (newParameterizedLoop exact pointLoop) = Num 0
   \<and> param (newParameterizedLoop exact pointLoop) 2 = Num 0"
proof -
  have cm: "count (newParameterizedLoop exact squareMid) = 5" "squareMid \<noteq> []"
    by (simp_all add: count_newParameterizedLoop squareMid_def)
  have cp: "count (newParameterizedLoop exact pointLoop) = 3"
    by (simp add: count_newParameterizedLoop pointLoop_def)
  have tm: "totalLength (newParameterizedLoop exact squareMid) = Num 8"
    by (simp add: squareMid_params)
  have tp: "totalLength (newParameterizedLoop exact pointLoop) = Num 0"
    by (simp add: pointLoop_params)
  note m = parameterizedLoop_invariant[OF rounding_exact, of squareMid]
  note p = parameterizedLoop_invariant[OF rounding_exact, of pointLoop]
  from m tm have mono: "\<forall>i j. i \<le> j \<and> j \<le> count (newParameterizedLoop exact squareMid) \<longrightarrow>
      jle (param (newParameterizedLoop exact squareMid) i) (param (newParameterizedLoop exact squareMid) j)"
    by blast
  have 1: "jle (param (newParameterizedLoop exact squareMid) 2) (param (newParameterizedLoop exact squareMid) 3)"
    using mono[rule_format, of 2 3] cm by simp
  have 2: "jle (param (newParameterizedLoop exact squareMid) 3) (param (newParameterizedLoop exact squareMid) 5)"
    using mono[rule_format, of 3 5] cm by simp
  have 3: "param (newParameterizedLoop exact squareMid) 0 = Num 0"
    using m cm by blast
  have 4: "param (newParameterizedLoop exact squareMid) 5 = Num 1"
    using m cm by simp
  have 5: "param (newParameterizedLoop exact pointLoop) 2 = Num 0"
    using p tp cp by simp
  from 1 2 3 4 tm tp 5 show ?thesis by blast
qed

text \<open>
  Claim C6, as stated, fails when the computed distances are not the Euclidean ones:
  from the origin, the vertex \<open>(1e200, 0)\<close> at index 1 is nearer than the vertex
  \<open>(2e200, 0)\<close> at index 0, but both squared distances overflow, both computed
  distances are \<open>Infinity\<close>, the test \<open>Infinity < Infinity\<close> never holds, and the index
  returned is 0; \<open>alignLoopStarts\<close> leaves the loop as it is.
\<close>

theorem nearest_vertex_missed_on_overflow:
  "findClosestVertexIndex exact [pt 0 0] farPair = Inr 0
   \<and> alignLoopStarts exact [pt 0 0] farPair = Inr farPair
   \<and> euclideanDistance (pt 0 0) (farPair ! 0) = Some (2 * huge)
   \<and> euclideanDistance (pt 0 0) (farPair ! 1) = Some huge
   \<and> huge < 2 * huge
   \<and> distanceTo exact (pt 0 0) (farPair ! 0) = PInf
   \<and> distanceTo exact (pt 0 0) (farPair ! 1) = PInf"
proof -
  have "alignLoopStarts exact [pt 0 0] farPair = Inr farPair"
    by (simp add: alignLoopStarts_def farPair_closest rotateArray_def)
  moreover have "distanceTo exact (pt 0 0) (farPair ! 0) = PInf"
    "distanceTo exact (pt 0 0) (farPair ! 1) = PInf"
    by (simp_all add: farPair_def distanceTo_huge)
  ultimately show ?thesis
    using farPair_closest farPair_euclidean huge_bounds(1) by simp
qed

text \<open>
  Claim C6, amended. For non-empty loops, and whatever the rounding of the arithmetic,
  \<open>findClosestVertexIndex\<close> returns an index \<open>k\<close> of \<open>loopB\<close> such that, for the
  distances from \<open>loopA\<close>'s vertex 0 as \<open>distanceTo\<close> computes them (rounded, possibly
  \<open>Infinity\<close> or \<open>NaN\<close>), no vertex of \<open>loopB\<close> has a computed distance less than that
  of vertex \<open>k\<close>, and no vertex before \<open>k\<close> has a computed distance less than or equal
  to it (the lowest index among ties); \<open>alignLoopStarts\<close> returns \<open>loopB\<close> rotated
  cyclically by \<open>k\<close>, so that this vertex is at index 0 and vertex \<open>i\<close> of the result is
  vertex \<open>(k + i) mod n\<close> of \<open>loopB\<close>.
\<close>

theorem findClosestVertexIndex_alignLoopStarts:
  assumes "loopA \<noteq> []" "loopB \<noteq> []"
  shows "\<exists>k. findClosestVertexIndex rnd loopA loopB = Inr k
           \<and> k < length loopB
           \<and> (\<forall>j < length loopB.
                 \<not> jlt (distanceTo rnd (loopA ! 0) (loopB ! j)) (distanceTo rnd (loopA ! 0) (loopB ! k)))
           \<and> (\<forall>j < k.
                 \<not> jle (distanceTo rnd (loopA ! 0) (loopB ! j)) (distanceTo rnd (loopA ! 0) (loopB ! k)))
           \<and> alignLoopStarts rnd loopA loopB = Inr (rotate k loopB)
           \<and> rotate k loopB ! 0 = loopB ! k
           \<and> (\<forall>i < length loopB. rotate k loopB ! i = loopB ! ((k + i) mod length loopB))"
proof -
  obtain k where fc: "findClosestVertexIndex rnd loopA loopB = Inr k"
    and k: "k < length loopB"
    and mn: "\<forall>j < length loopB.
                 \<not> jlt (distanceTo rnd (loopA ! 0) (loopB ! j)) (distanceTo rnd (loopA ! 0) (loopB ! k))"
    and st: "\<forall>j < k.
                 \<not> jle (distanceTo rnd (loopA ! 0) (loopB ! j)) (distanceTo rnd (loopA ! 0) (loopB ! k))"
    using findClosestVertexIndex_props[OF assms] by blast
  have al: "alignLoopStarts rnd loopA loopB = Inr (rotate k loopB)"
    by (simp add: alignLoopStarts_def fc rotateArray_rotate[OF k])
  have nth: "\<forall>i < length loopB. rotate k loopB ! i = loopB ! ((k + i) mod length loopB)"
    by (simp add: nth_rotate)
  have pos: "0 < length loopB" using assms(2) by simp
  have hd: "rotate k loopB ! 0 = loopB ! k"
    using nth pos k by simp
  from fc k mn st al hd nth show ?thesis by blast
qed

theorem findClosestVertexIndex_alignLoopStarts_witness:
  "findClosestVertexIndex exact square squareTurned = Inr 1
   \<and> alignLoopStarts exact square squareTurned = Inr square"
proof -
  have ne: "square \<noteq> []" "squareTurned \<noteq> []"
    by (simp_all add: square_def squareTurned_def)
  obtain k where fc: "findClosestVertexIndex exact square squareTurned = Inr k"
    and al: "alignLoopStarts exact square squareTurned = Inr (rotate k squareTurned)"
    using findClosestVertexIndex_alignLoopStarts[OF ne, where rnd = exact] by blast
  from fc have k: "k = 1" by (simp add: squareTurned_closest)
  have "rotate 1 squareTurned = square"
    by (simp add: square_def squareTurned_def)
  with fc al k show ?thesis by simp
qed

section \<open>Claims about the orchestrator\<close>

text \<open>
  Claim C8. With fewer than 2 planes \<open>fromPlanes\<close> returns the model without segments.
  With \<open>N \<ge> 2\<close> planes, the model it builds has exactly \<open>N - 1\<close> segments; segment
  \<open>i\<close> joins plane \<open>i\<close> and plane \<open>i + 1\<close> of the planes in ascending order of height,
  planes of equal height keeping their original relative order (for every height, the
  planes of that height appear in the model in the order of the input). A model is
  always built when \<open>perimeter-walk\<close> is the registered algorithm, whatever the rounding
  of its arithmetic.
\<close>

theorem fromPlanes_segments:
  "(length planes < 2 \<longrightarrow>
      fromPlanes registry dflt planes name = ([], Inr \<lparr> segments = [] \<rparr>))
   \<and> (2 \<le> length planes \<longrightarrow>
        (\<forall>model. snd (fromPlanes registry dflt planes name) = Inr model \<longrightarrow>
           length (segments model) = length planes - 1
         \<and> getPlanes model = sortPlanes planes
         \<and> (\<forall>i < length planes - 1.
               bottomPlane (segments model ! i) = sortPlanes planes ! i
             \<and> topPlane (segments model ! i) = sortPlanes planes ! (i + 1))
         \<and> sorted (map getHeight (getPlanes model))
         \<and> (\<forall>h. filter (\<lambda>p. getHeight p = h) (getPlanes model) =
                  filter (\<lambda>p. getHeight p = h) planes)))
   \<and> (2 \<le> length planes \<and> registry ''perimeter-walk'' = Some (perimeterWalkAlgorithm rnd)
        \<and> (\<forall>n alg. registry n = Some alg \<longrightarrow> alg = perimeterWalkAlgorithm rnd) \<longrightarrow>
        (\<exists>model. snd (fromPlanes registry dflt planes name) = Inr model))"
proof -
  let ?sorted = "sortPlanes planes"
  let ?name = "case name of Some n \<Rightarrow> n
               | None \<Rightarrow> (case dflt of Some d \<Rightarrow> d | None \<Rightarrow> ''perimeter-walk'')"
  have small: "length planes < 2 \<longrightarrow>
      fromPlanes registry dflt planes name = ([], Inr \<lparr> segments = [] \<rparr>)"
    by (simp add: fromPlanes_def)
  have len: "length ?sorted = length planes"
    by (simp add: sortPlanes_def)
  have built: "\<exists>algorithm. buildSegments ?sorted algorithm = Inr model"
    if n: "2 \<le> length planes" and m: "snd (fromPlanes registry dflt planes name) = Inr model"
    for model
    using n m
    by (auto simp: fromPlanes_def getLoftAlgorithm_def Let_def split: option.splits)
  have props: "length (segments model) = length planes - 1
         \<and> getPlanes model = ?sorted
         \<and> (\<forall>i < length planes - 1.
               bottomPlane (segments model ! i) = ?sorted ! i
             \<and> topPlane (segments model ! i) = ?sorted ! (i + 1))
         \<and> sorted (map getHeight (getPlanes model))
         \<and> (\<forall>h. filter (\<lambda>p. getHeight p = h) (getPlanes model) =
                  filter (\<lambda>p. getHeight p = h) planes)"
    if n: "2 \<le> length planes" and m: "snd (fromPlanes registry dflt planes name) = Inr model"
    for model
  proof -
    obtain algorithm where b: "buildSegments ?sorted algorithm = Inr model"
      using built[OF n m] by blast
    have n': "2 \<le> length ?sorted" using n len by simp
    have bt: "map bottomPlane (segments model) = butlast ?sorted"
      and tp: "map topPlane (segments model) = tl ?sorted"
      using buildSegments_planes[OF b] by blast+
    have l: "length (segments model) = length planes - 1"
      using arg_cong[OF bt, of length] len by simp
    have g: "getPlanes model = ?sorted"
      by (rule getPlanes_built[OF b n'])
    have ix: "bottomPlane (segments model ! i) = ?sorted ! i
             \<and> topPlane (segments model ! i) = ?sorted ! (i + 1)" if i: "i < length planes - 1" for i
    proof -
      have "bottomPlane (segments model ! i) = map bottomPlane (segments model) ! i"
        using i l by simp
      also have "\<dots> = ?sorted ! i"
        unfolding bt using i len by (simp add: nth_butlast)
      finally have 1: "bottomPlane (segments model ! i) = ?sorted ! i" .
      have "topPlane (segments model ! i) = map topPlane (segments model) ! i"
        using i l by simp
      also have "\<dots> = ?sorted ! (i + 1)"
        unfolding tp using i len by (simp add: nth_tl)
      finally show ?thesis using 1 by blast
    qed
    have s: "sorted (map getHeight (getPlanes model))"
      unfolding g by (simp add: sortPlanes_def)
    have st: "\<forall>h. filter (\<lambda>p. getHeight p = h) (getPlanes model) =
                  filter (\<lambda>p. getHeight p = h) planes"
      unfolding g by (simp add: sortPlanes_def sort_key_stable)
    from l g ix s st show ?thesis by blast
  qed
  have total: "\<exists>model. snd (fromPlanes registry dflt planes name) = Inr model"
    if n: "2 \<le> length planes" and pw: "registry ''perimeter-walk'' = Some (perimeterWalkAlgorithm rnd)"
      and only: "\<forall>n alg. registry n = Some alg \<longrightarrow> alg = perimeterWalkAlgorithm rnd"
  proof -
    have tot: "\<forall>a h b h'. \<exists>r. perimeterWalkAlgorithm rnd a h b h' = Inr r"
      using perimeterWalkAlgorithm_total by blast
    have b: "\<exists>model. buildSegments ?sorted (perimeterWalkAlgorithm rnd) = Inr model"
      unfolding buildSegments_def by (rule buildSegmentsFrom_total[OF tot])
    show ?thesis
    proof (cases "registry ?name")
      case None
      then show ?thesis
        using n pw b by (simp add: fromPlanes_def getLoftAlgorithm_def Let_def)
    next
      case (Some alg)
      then have "alg = perimeterWalkAlgorithm rnd" using only by blast
      with Some show ?thesis
        using n b by (simp add: fromPlanes_def getLoftAlgorithm_def Let_def)
    qed
  qed
  from small props total show ?thesis by blast
qed

theorem fromPlanes_segments_witness:
  "snd (fromPlanes (registeredAlgorithms exact) None [planeUpper, planeGround, planeUpperTwin] None) =
     Inr \<lparr> segments =
             [\<lparr> bottomPlane = planeGround, topPlane = planeUpper, seg_faces = [] \<rparr>,
              \<lparr> bottomPlane = planeUpper, topPlane = planeUpperTwin, seg_faces = [] \<rparr>] \<rparr>
   \<and> getPlanes \<lparr> segments =
             [\<lparr> bottomPlane = planeGround, topPlane = planeUpper, seg_faces = [] \<rparr>,
              \<lparr> bottomPlane = planeUpper, topPlane = planeUpperTwin, seg_faces = [] \<rparr>] \<rparr> =
       sortPlanes [planeUpper, planeGround, planeUpperTwin]
   \<and> sorted (map getHeight (getPlanes \<lparr> segments =
             [\<lparr> bottomPlane = planeGround, topPlane = planeUpper, seg_faces = [] \<rparr>,
              \<lparr> bottomPlane = planeUpper, topPlane = planeUpperTwin, seg_faces = [] \<rparr>] \<rparr>))
   \<and> fromPlanes emptyRegistry None [planeUpper] None = ([], Inr \<lparr> segments = [] \<rparr>)"
proof -
  let ?planes = "[planeUpper, planeGround, planeUpperTwin]"
  let ?model = "\<lparr> segments =
             [\<lparr> bottomPlane = planeGround, topPlane = planeUpper, seg_faces = [] \<rparr>,
              \<lparr> bottomPlane = planeUpper, topPlane = planeUpperTwin, seg_faces = [] \<rparr>] \<rparr>"
  have m: "snd (fromPlanes (registeredAlgorithms exact) None ?planes None) = Inr ?model"
    by (simp add: fromPlanes_def getLoftAlgorithm_def registeredAlgorithms_def sortPlanes_sample
          buildSegments_sample)
  have n: "2 \<le> length ?planes" by simp
  note t = fromPlanes_segments[where planes = ?planes and registry = "registeredAlgorithms exact"
             and dflt = None and name = None]
  have a: "getPlanes ?model = sortPlanes ?planes" "sorted (map getHeight (getPlanes ?model))"
    using t n m by blast+
  have b: "fromPlanes emptyRegistry None [planeUpper] None = ([], Inr \<lparr> segments = [] \<rparr>)"
    using fromPlanes_segments[where planes = "[planeUpper]" and registry = emptyRegistry
            and dflt = None and name = None] by simp
  from m a b show ?thesis by blast
qed




end
